theory Spec2Isabelle
  imports Main
begin

section \<open>The override store of the weatherio backend\<close>

text \<open>
  The development embeds the data-access helpers of the Express application
  (\<open>ensureDb\<close>, \<open>getLatestOverride\<close>, \<open>addOverride\<close>, \<open>removeOverride\<close>) and the part
  of the document database they use.

  Modelling decisions:
  \<^item> The \<open>overrides\<close> collection is a list of documents in natural (insertion) order.
    Documents are never deleted, so the position of a document in the list is its identity
    (it plays the role of the generated \<open>_id\<close>).
  \<^item> The key fields are strings, as the schema declares them. \<open>version\<close> is a JavaScript
    Number holding a non-negative integer; it is a natural number here, and \<open>latest.version + 1\<close>
    is the addition of doubles, which rounds from \<open>2^53\<close> on (\<open>js_add1\<close>).
  \<^item> The body of \<open>ensureDb\<close> contains no \<open>await\<close>, so each call of it is one step, and a
    caller may find the connection attempt of an earlier caller still pending. The three
    override helpers are modelled for one request at a time: every \<open>await\<close> in them
    completes before the next statement.
  \<^item> What the database service answers is an input: for each call the helper makes, the
    \<open>service\<close> record says whether the call is carried out (\<open>None\<close>) or rejects with an
    error (\<open>Some e\<close>); a rejected call changes nothing. The clock read by
    \<open>new Date().toISOString()\<close> is an input too.
\<close>

subsection \<open>Data\<close>

text \<open>\<open>overrideSchema\<close>; the payload \<open>newValues\<close> is opaque.\<close>

record 'v override =
  lat :: string
  lon :: string
  date :: string
  newValues :: 'v
  updatedAt :: string
  updatedBy :: string
  version :: nat
  active :: bool

text \<open>A thrown value: \<open>new Error(msg)\<close>, or whatever the driver rejects with.\<close>

datatype error = Error string

text \<open>
  The promise kept in \<open>connectingPromise\<close>: still pending, or fulfilled with a value. A
  rejected promise is never kept, because the \<open>catch\<close> handler that rejects it resets the
  variable.
\<close>

datatype promise = Pending | Fulfilled bool

text \<open>The options that \<open>ensureDb\<close> passes to \<open>mongoose.connect\<close>, in milliseconds.\<close>

record connect_options =
  serverSelectionTimeoutMS :: nat
  connectTimeoutMS :: nat

text \<open>
  The module state: the environment variable \<open>MONGO_URI\<close>, \<open>mongoose.connection.readyState\<close>
  (1 means connected), the module variable \<open>connectingPromise\<close> (\<open>None\<close> is \<open>null\<close>), the
  calls of \<open>mongoose.connect\<close> made so far, each with its options, and the collection.
\<close>

record 'v state =
  MONGO_URI :: "string option"
  readyState :: nat
  connectingPromise :: "promise option"
  connect_calls :: "connect_options list"
  overrides :: "'v override list"

text \<open>The answers of the service to the calls of one request.\<close>

record service =
  connect :: "error option"
  findOne :: "error option"
  updateMany :: "error option"
  findOneAndUpdate :: "error option"
  save :: "error option"

subsection \<open>The document store\<close>

text \<open>
  \<open>Model.findOne(filter).sort({version: -1})\<close>: the matching document of greatest version.
  Among documents of equal version the database promises no order; the model takes the
  earliest in natural order.
\<close>

fun latest_of :: "'v override list \<Rightarrow> 'v override option" where
  "latest_of [] = None"
| "latest_of (r # rs) =
     (case latest_of rs of
        None \<Rightarrow> Some r
      | Some r' \<Rightarrow> if version r < version r' then Some r' else Some r)"

definition findOne_sorted :: "('v override \<Rightarrow> bool) \<Rightarrow> 'v override list \<Rightarrow> 'v override option" where
  "findOne_sorted flt docs = latest_of (filter flt docs)"

text \<open>\<open>Model.updateMany(filter, {$set: {active: false}})\<close>.\<close>

definition set_inactive :: "'v override \<Rightarrow> 'v override" where
  "set_inactive r = r\<lparr>active := False\<rparr>"

definition updateMany_docs :: "('v override \<Rightarrow> bool) \<Rightarrow> 'v override list \<Rightarrow> 'v override list" where
  "updateMany_docs flt docs = map (\<lambda>r. if flt r then set_inactive r else r) docs"

text \<open>
  \<open>Model.findOneAndUpdate(filter, {$set: {active: false}}, {new: true})\<close>: patches the first
  matching document in natural order and returns it as it is after the patch.
\<close>

fun findOneAndUpdate_docs ::
  "('v override \<Rightarrow> bool) \<Rightarrow> 'v override list \<Rightarrow> 'v override option \<times> 'v override list" where
  "findOneAndUpdate_docs flt [] = (None, [])"
| "findOneAndUpdate_docs flt (r # rs) =
     (if flt r then (Some (set_inactive r), set_inactive r # rs)
      else (case findOneAndUpdate_docs flt rs of (res, rs') \<Rightarrow> (res, r # rs')))"

text \<open>The two query filters of the helpers.\<close>

definition key_filter :: "string \<Rightarrow> string \<Rightarrow> string \<Rightarrow> string \<Rightarrow> 'v override \<Rightarrow> bool" where
  "key_filter lt ln dt email r \<longleftrightarrow>
     lat r = lt \<and> lon r = ln \<and> date r = dt \<and> updatedBy r = email"

definition active_key_filter :: "string \<Rightarrow> string \<Rightarrow> string \<Rightarrow> string \<Rightarrow> 'v override \<Rightarrow> bool" where
  "active_key_filter lt ln dt email r \<longleftrightarrow>
     lat r = lt \<and> lon r = ln \<and> date r = dt \<and> active r = True \<and> updatedBy r = email"

subsection \<open>The helpers\<close>

text \<open>\<open>!MONGO_URI\<close>: unset or the empty string.\<close>

definition uri_missing :: "string option \<Rightarrow> bool" where
  "uri_missing u = (case u of None \<Rightarrow> True | Some s \<Rightarrow> s = [])"

text \<open>
  The body of \<open>ensureDb\<close>, which runs to its \<open>return\<close> in one step: it throws, returns
  \<open>true\<close>, or returns the promise in \<open>connectingPromise\<close>. In the last case the caller
  awaits that promise (\<open>Awaits\<close>) unless it is already fulfilled. With the variable at
  \<open>null\<close> the body first calls \<open>mongoose.connect\<close> and stores the promise it derives.
\<close>

datatype ensured = Throws error | Returns bool | Awaits

definition connect_opts :: connect_options where
  "connect_opts = \<lparr>serverSelectionTimeoutMS = 3000, connectTimeoutMS = 3000\<rparr>"

definition ensureDb_call :: "'v state \<Rightarrow> ensured \<times> 'v state" where
  "ensureDb_call st =
     (if uri_missing (MONGO_URI st) then (Throws (Error ''MONGO_URI not set''), st)
      else if readyState st = 1 then (Returns True, st)
      else (case connectingPromise st of
              None \<Rightarrow>
                (Awaits, st\<lparr>connectingPromise := Some Pending,
                           connect_calls := connect_calls st @ [connect_opts]\<rparr>)
            | Some Pending \<Rightarrow> (Awaits, st)
            | Some (Fulfilled v) \<Rightarrow> (Returns v, st)))"

text \<open>
  The driver settles the pending attempt. On success the \<open>then\<close> handler fulfils the stored
  promise with \<open>true\<close>; on failure the \<open>catch\<close> handler sets \<open>connectingPromise\<close> to \<open>null\<close>
  and rethrows. \<open>readyState\<close> belongs to the driver: 1 once connected, 0 after a failure.
  \<open>settled_result\<close> is what every caller awaiting the promise receives.
\<close>

definition connect_settles :: "error option \<Rightarrow> 'v state \<Rightarrow> 'v state" where
  "connect_settles outcome st =
     (case outcome of
        None \<Rightarrow> st\<lparr>readyState := 1, connectingPromise := Some (Fulfilled True)\<rparr>
      | Some err \<Rightarrow> st\<lparr>readyState := 0, connectingPromise := None\<rparr>)"

definition settled_result :: "error option \<Rightarrow> error + bool" where
  "settled_result outcome = (case outcome of None \<Rightarrow> Inr True | Some err \<Rightarrow> Inl err)"

text \<open>
  \<open>await ensureDb()\<close> in a request that runs alone: the body, and when it returns a pending
  promise, the settlement that the service answers with.
\<close>

definition ensureDb :: "service \<Rightarrow> 'v state \<Rightarrow> (error + bool) \<times> 'v state" where
  "ensureDb svc st =
     (case ensureDb_call st of
        (Throws e, st1) \<Rightarrow> (Inl e, st1)
      | (Returns v, st1) \<Rightarrow> (Inr v, st1)
      | (Awaits, st1) \<Rightarrow> (settled_result (connect svc), connect_settles (connect svc) st1))"

definition getLatestOverride ::
  "service \<Rightarrow> string \<Rightarrow> string \<Rightarrow> string \<Rightarrow> string \<Rightarrow> 'v state
     \<Rightarrow> (error + 'v override option) \<times> 'v state" where
  "getLatestOverride svc lt ln dt userEmail st =
     (case ensureDb svc st of
        (Inl e, st1) \<Rightarrow> (Inl e, st1)
      | (Inr _, st1) \<Rightarrow>
          (case findOne svc of
             Some e \<Rightarrow> (Inl e, st1)
           | None \<Rightarrow>
               (Inr (findOne_sorted (active_key_filter lt ln dt userEmail) (overrides st1)), st1)))"

text \<open>
  \<open>v + 1\<close> on a Number that holds a non-negative integer. Doubles have a 53-bit significand:
  below \<open>2^53\<close> the sum is exact; from \<open>2^53\<close> to \<open>2^54\<close> the doubles are the even integers,
  \<open>v + 1\<close> lies halfway between two of them and is rounded to the one whose significand
  \<open>v div 2\<close> or \<open>v div 2 + 1\<close> is even; from \<open>2^54\<close> on the sum rounds back to \<open>v\<close>.
\<close>

definition js_add1 :: "nat \<Rightarrow> nat" where
  "js_add1 v =
     (if v < 2 ^ 53 then v + 1
      else if v < 2 ^ 54 \<and> odd (v div 2) then v + 2
      else v)"

definition addOverride ::
  "service \<Rightarrow> string \<Rightarrow> string \<Rightarrow> string \<Rightarrow> string \<Rightarrow> 'v \<Rightarrow> string \<Rightarrow> 'v state
     \<Rightarrow> (error + 'v override) \<times> 'v state" where
  "addOverride svc now lt ln dt vals userEmail st =
     (case ensureDb svc st of
        (Inl e, st1) \<Rightarrow> (Inl e, st1)
      | (Inr _, st1) \<Rightarrow>
          (case findOne svc of
             Some e \<Rightarrow> (Inl e, st1)
           | None \<Rightarrow>
               (let latest = findOne_sorted (key_filter lt ln dt userEmail) (overrides st1);
                    newVersion = (case latest of Some l \<Rightarrow> js_add1 (version l) | None \<Rightarrow> 1)
                in case updateMany svc of
                     Some e \<Rightarrow> (Inl e, st1)
                   | None \<Rightarrow>
                       (let st2 = st1\<lparr>overrides :=
                                   updateMany_docs (key_filter lt ln dt userEmail) (overrides st1)\<rparr>;
                            newOverride = \<lparr>lat = lt, lon = ln, date = dt, newValues = vals,
                                           updatedAt = now, updatedBy = userEmail,
                                           version = newVersion, active = True\<rparr>
                        in case save svc of
                             Some e \<Rightarrow> (Inl e, st2)
                           | None \<Rightarrow>
                               (Inr newOverride,
                                st2\<lparr>overrides := overrides st2 @ [newOverride]\<rparr>)))))"

definition removeOverride ::
  "service \<Rightarrow> string \<Rightarrow> string \<Rightarrow> string \<Rightarrow> string \<Rightarrow> 'v state
     \<Rightarrow> (error + 'v override option) \<times> 'v state" where
  "removeOverride svc lt ln dt userEmail st =
     (case ensureDb svc st of
        (Inl e, st1) \<Rightarrow> (Inl e, st1)
      | (Inr _, st1) \<Rightarrow>
          (case findOneAndUpdate svc of
             Some e \<Rightarrow> (Inl e, st1)
           | None \<Rightarrow>
               (case findOneAndUpdate_docs (active_key_filter lt ln dt userEmail) (overrides st1) of
                  (res, docs') \<Rightarrow> (Inr res, st1\<lparr>overrides := docs'\<rparr>))))"

subsection \<open>Observations and runs\<close>

text \<open>The documents of a key that are active, in natural order.\<close>

definition active_docs ::
  "string \<Rightarrow> string \<Rightarrow> string \<Rightarrow> string \<Rightarrow> 'v override list \<Rightarrow> 'v override list" where
  "active_docs lt ln dt email docs = filter (active_key_filter lt ln dt email) docs"

text \<open>
  The version that the next \<open>addOverride\<close> on a key assigns, read off the collection.
\<close>

definition next_version :: "string \<Rightarrow> string \<Rightarrow> string \<Rightarrow> string \<Rightarrow> 'v override list \<Rightarrow> nat" where
  "next_version lt ln dt email docs =
     (case findOne_sorted (key_filter lt ln dt email) docs of
        Some l \<Rightarrow> js_add1 (version l) | None \<Rightarrow> 1)"

text \<open>The greatest version stored for a key, 0 when the key has no document.\<close>

definition top_version :: "string \<Rightarrow> string \<Rightarrow> string \<Rightarrow> string \<Rightarrow> 'v override list \<Rightarrow> nat" where
  "top_version lt ln dt email docs =
     (case findOne_sorted (key_filter lt ln dt email) docs of
        Some l \<Rightarrow> version l | None \<Rightarrow> 0)"

text \<open>
  A sequence of \<open>addOverride\<close> calls on one key, one after the other; each call has its own
  service answers, clock reading and payload. The results are collected in call order.
\<close>

fun add_all ::
  "(service \<times> string \<times> 'v) list \<Rightarrow> string \<Rightarrow> string \<Rightarrow> string \<Rightarrow> string \<Rightarrow> 'v state
     \<Rightarrow> (error + 'v override) list \<times> 'v state" where
  "add_all [] lt ln dt email st = ([], st)"
| "add_all ((svc, now, vals) # cs) lt ln dt email st =
     (case addOverride svc now lt ln dt vals email st of
        (res, st1) \<Rightarrow>
          (case add_all cs lt ln dt email st1 of (ress, st2) \<Rightarrow> (res # ress, st2)))"

text \<open>The versions of the records that the calls returned (a failed call returns none).\<close>

fun assigned_versions :: "(error + 'v override) list \<Rightarrow> nat list" where
  "assigned_versions [] = []"
| "assigned_versions (Inl e # ress) = assigned_versions ress"
| "assigned_versions (Inr r # ress) = version r # assigned_versions ress"

text \<open>
  Any sequence of calls of the three helpers, one after the other, and its effect on the
  module state.
\<close>

datatype 'v call =
    GetLatest string string string string
  | Add string string string string 'v string
  | Remove string string string string

fun perform :: "service \<times> 'v call \<Rightarrow> 'v state \<Rightarrow> 'v state" where
  "perform (svc, GetLatest lt ln dt email) st = snd (getLatestOverride svc lt ln dt email st)"
| "perform (svc, Add now lt ln dt vals email) st = snd (addOverride svc now lt ln dt vals email st)"
| "perform (svc, Remove lt ln dt email) st = snd (removeOverride svc lt ln dt email st)"

definition run :: "(service \<times> 'v call) list \<Rightarrow> 'v state \<Rightarrow> 'v state" where
  "run calls st = fold perform calls st"

text \<open>The state in which a caller that finds no promise leaves the process.\<close>

definition attempt_started :: "'v state \<Rightarrow> 'v state" where
  "attempt_started st =
     st\<lparr>connectingPromise := Some Pending, connect_calls := connect_calls st @ [connect_opts]\<rparr>"

text \<open>
  Callers that enter \<open>ensureDb\<close> one after the other while nothing settles in between, with
  what each of them gets from the body.
\<close>

fun ensureDb_calls :: "nat \<Rightarrow> 'v state \<Rightarrow> ensured list \<times> 'v state" where
  "ensureDb_calls 0 st = ([], st)"
| "ensureDb_calls (Suc n) st =
     (case ensureDb_call st of
        (r, st1) \<Rightarrow> (case ensureDb_calls n st1 of (rs, st2) \<Rightarrow> (r # rs, st2)))"

text \<open>
  How a collection may differ from an earlier one: documents may have been appended, and a
  document that was there is either as it was or as it was with \<open>active\<close> switched off.
\<close>

definition deactivated_or_same :: "'v override \<Rightarrow> 'v override \<Rightarrow> bool" where
  "deactivated_or_same d d' \<longleftrightarrow> d' = d \<or> d' = d\<lparr>active := False\<rparr>"

definition only_deactivates :: "'v override list \<Rightarrow> 'v override list \<Rightarrow> bool" where
  "only_deactivates docs docs' \<longleftrightarrow>
     length docs \<le> length docs' \<and>
     list_all2 deactivated_or_same docs (take (length docs) docs')"

subsection \<open>Example inputs\<close>

text \<open>A service that carries out every call, and one whose insert is rejected.\<close>

definition ok_service :: service where
  "ok_service = \<lparr>connect = None, findOne = None, updateMany = None,
                  findOneAndUpdate = None, save = None\<rparr>"

definition save_fails :: service where
  "save_fails = ok_service\<lparr>save := Some (Error ''insert failed'')\<rparr>"

text \<open>A configured process that has not connected yet, with an empty collection.\<close>

definition fresh :: "nat state" where
  "fresh = \<lparr>MONGO_URI = Some ''mongodb://db'', readyState = 0, connectingPromise = None,
            connect_calls = [], overrides = []\<rparr>"

text \<open>The same process after its first caller has entered \<open>ensureDb\<close>.\<close>

definition connecting :: "nat state" where
  "connecting = fresh\<lparr>connectingPromise := Some Pending, connect_calls := [connect_opts]\<rparr>"

text \<open>A service whose connection attempt is rejected.\<close>

definition connect_fails :: service where
  "connect_fails = ok_service\<lparr>connect := Some (Error ''no server'')\<rparr>"

text \<open>
  Three stored documents: versions 1 and 2 of the key of owner \<open>a@x.com\<close>, both active (the
  state two interleaved writers can leave behind), and one document of owner \<open>b@x.com\<close> at
  the same location and date.
\<close>

definition doc_a1 :: "nat override" where
  "doc_a1 = \<lparr>lat = ''12.0'', lon = ''77.0'', date = ''2024-01-01'', newValues = 10,
             updatedAt = ''t1'', updatedBy = ''a@x.com'', version = 1, active = True\<rparr>"

definition doc_a2 :: "nat override" where
  "doc_a2 = \<lparr>lat = ''12.0'', lon = ''77.0'', date = ''2024-01-01'', newValues = 20,
             updatedAt = ''t2'', updatedBy = ''a@x.com'', version = 2, active = True\<rparr>"

definition doc_b1 :: "nat override" where
  "doc_b1 = \<lparr>lat = ''12.0'', lon = ''77.0'', date = ''2024-01-01'', newValues = 7,
             updatedAt = ''t0'', updatedBy = ''b@x.com'', version = 5, active = True\<rparr>"

definition doc_a3 :: "nat override" where
  "doc_a3 = \<lparr>lat = ''12.0'', lon = ''77.0'', date = ''2024-01-01'', newValues = 30,
             updatedAt = ''t3'', updatedBy = ''a@x.com'', version = 3, active = True\<rparr>"

definition connected :: "nat override list \<Rightarrow> nat state" where
  "connected docs = \<lparr>MONGO_URI = Some ''mongodb://db'', readyState = 1,
                     connectingPromise = Some (Fulfilled True), connect_calls = [connect_opts],
                     overrides = docs\<rparr>"

text \<open>A stored document whose version is \<open>2^53\<close>.\<close>

definition doc_limit :: "nat override" where
  "doc_limit = \<lparr>lat = ''12.0'', lon = ''77.0'', date = ''2024-01-01'', newValues = 10,
                updatedAt = ''t1'', updatedBy = ''a@x.com'', version = 9007199254740992,
                active = True\<rparr>"

definition two_active :: "nat state" where
  "two_active = connected [doc_a1, doc_b1, doc_a2]"

lemmas example_defs =
  ok_service_def save_fails_def fresh_def doc_a1_def doc_a2_def doc_b1_def doc_a3_def
  connected_def two_active_def connecting_def connect_fails_def doc_limit_def

lemmas helper_defs =
  ensureDb_def ensureDb_call_def connect_settles_def settled_result_def connect_opts_def
  attempt_started_def js_add1_def uri_missing_def getLatestOverride_def addOverride_def removeOverride_def
  findOne_sorted_def updateMany_docs_def set_inactive_def key_filter_def
  active_key_filter_def active_docs_def Let_def

section \<open>Properties\<close>

subsection \<open>Queries and updates\<close>

lemma ensureDb_overrides: "overrides (snd (ensureDb svc st)) = overrides st"
  by (simp add: ensureDb_def ensureDb_call_def connect_settles_def
      split: option.splits promise.splits)

lemma ensureDb_overrides': "ensureDb svc st = (res, st1) \<Longrightarrow> overrides st1 = overrides st"
  using ensureDb_overrides [of svc st] by simp

lemma latest_of_None: "latest_of xs = None \<longleftrightarrow> xs = []"
  by (induction xs) (auto split: option.splits)

lemma latest_of_mem: "latest_of xs = Some r \<Longrightarrow> r \<in> set xs"
  by (induction xs arbitrary: r) (auto split: option.splits if_splits)

lemma latest_of_greatest: "latest_of xs = Some r \<Longrightarrow> x \<in> set xs \<Longrightarrow> version x \<le> version r"
  by (induction xs arbitrary: r) (fastforce split: option.splits if_splits simp: latest_of_None)+

lemma latest_of_Max: "latest_of xs = Some r \<Longrightarrow> version r = Max (version ` set xs)"
proof -
  assume a: "latest_of xs = Some r"
  have "Max (version ` set xs) = version r"
  proof (rule Max_eqI)
    show "finite (version ` set xs)" by simp
    show "\<And>y. y \<in> version ` set xs \<Longrightarrow> y \<le> version r"
      using latest_of_greatest [OF a] by auto
    show "version r \<in> version ` set xs" using latest_of_mem [OF a] by simp
  qed
  then show ?thesis by simp
qed

lemma length_updateMany_docs: "length (updateMany_docs flt docs) = length docs"
  by (simp add: updateMany_docs_def)

lemma nth_updateMany_docs:
  "i < length docs \<Longrightarrow>
   updateMany_docs flt docs ! i = (if flt (docs ! i) then set_inactive (docs ! i) else docs ! i)"
  by (simp add: updateMany_docs_def)

lemma findOneAndUpdate_docs_length:
  "length (snd (findOneAndUpdate_docs flt docs)) = length docs"
  by (induction docs) (auto split: prod.splits)

lemma findOneAndUpdate_docs_None:
  "fst (findOneAndUpdate_docs flt docs) = None \<longleftrightarrow> (\<forall>r \<in> set docs. \<not> flt r)"
  by (induction docs) (auto split: prod.splits)

lemma findOneAndUpdate_docs_None_same:
  "\<forall>r \<in> set docs. \<not> flt r \<Longrightarrow> findOneAndUpdate_docs flt docs = (None, docs)"
  by (induction docs) (auto split: prod.splits)

lemma findOneAndUpdate_docs_Some:
  "findOneAndUpdate_docs flt docs = (Some u, docs') \<Longrightarrow>
   \<exists>i < length docs. flt (docs ! i) \<and> (\<forall>j < i. \<not> flt (docs ! j)) \<and>
      u = set_inactive (docs ! i) \<and> docs' = docs[i := u]"
proof (induction docs arbitrary: docs')
  case Nil
  then show ?case by simp
next
  case (Cons r rs)
  show ?case
  proof (cases "flt r")
    case True
    with Cons.prems have "u = set_inactive r" "docs' = set_inactive r # rs" by auto
    with True show ?thesis by (intro exI [of _ 0]) simp
  next
    case False
    with Cons.prems obtain rs' where
      *: "findOneAndUpdate_docs flt rs = (Some u, rs')" and d: "docs' = r # rs'"
      by (auto split: prod.splits)
    from Cons.IH [OF *] obtain i where i: "i < length rs" "flt (rs ! i)"
      "\<forall>j < i. \<not> flt (rs ! j)" "u = set_inactive (rs ! i)" "rs' = rs[i := u]" by blast
    have "\<forall>j < Suc i. \<not> flt ((r # rs) ! j)"
      using False i(3) by (auto simp: less_Suc_eq_0_disj)
    with i d show ?thesis by (intro exI [of _ "Suc i"]) simp
  qed
qed

lemma active_key_filter_iff:
  "active_key_filter lt ln dt email r \<longleftrightarrow> key_filter lt ln dt email r \<and> active r"
  by (auto simp: active_key_filter_def key_filter_def)

lemma key_filter_set_inactive [simp]:
  "key_filter lt ln dt email (set_inactive r) = key_filter lt ln dt email r"
  by (simp add: key_filter_def set_inactive_def)

lemma active_set_inactive [simp]: "\<not> active (set_inactive r)"
  by (simp add: set_inactive_def)

lemma version_set_inactive [simp]: "version (set_inactive r) = version r"
  by (simp add: set_inactive_def)

subsection \<open>Adding a version\<close>

lemma addOverride_cases:
  obtains (connect_failed) e where "fst (ensureDb svc st) = Inl e"
      "addOverride svc now lt ln dt vals email st = (Inl e, snd (ensureDb svc st))"
  | (find_failed) b e where "fst (ensureDb svc st) = Inr b" "findOne svc = Some e"
      "addOverride svc now lt ln dt vals email st = (Inl e, snd (ensureDb svc st))"
  | (update_failed) b e where "fst (ensureDb svc st) = Inr b" "findOne svc = None"
      "updateMany svc = Some e"
      "addOverride svc now lt ln dt vals email st = (Inl e, snd (ensureDb svc st))"
  | (save_failed) b e where "fst (ensureDb svc st) = Inr b" "findOne svc = None"
      "updateMany svc = None" "save svc = Some e"
      "addOverride svc now lt ln dt vals email st =
         (Inl e, (snd (ensureDb svc st))\<lparr>overrides :=
                   updateMany_docs (key_filter lt ln dt email) (overrides st)\<rparr>)"
  | (saved) b r where "fst (ensureDb svc st) = Inr b" "findOne svc = None"
      "updateMany svc = None" "save svc = None"
      "r = \<lparr>lat = lt, lon = ln, date = dt, newValues = vals, updatedAt = now,
            updatedBy = email,
            version = (case findOne_sorted (key_filter lt ln dt email) (overrides st) of
                         Some l \<Rightarrow> js_add1 (version l) | None \<Rightarrow> 1),
            active = True\<rparr>"
      "addOverride svc now lt ln dt vals email st =
         (Inr r, (snd (ensureDb svc st))\<lparr>overrides :=
                   updateMany_docs (key_filter lt ln dt email) (overrides st) @ [r]\<rparr>)"
proof -
  obtain res st1 where e: "ensureDb svc st = (res, st1)" by (cases "ensureDb svc st")
  have o: "overrides st1 = overrides st" using ensureDb_overrides' [OF e] .
  show thesis
  proof (cases res)
    case (Inl err)
    with e show ?thesis by (intro connect_failed [of err]) (simp_all add: addOverride_def)
  next
    case (Inr b)
    show ?thesis
    proof (cases "findOne svc")
      case (Some err)
      with e Inr show ?thesis by (intro find_failed [of b err]) (simp_all add: addOverride_def)
    next
      case fo: None
      show ?thesis
      proof (cases "updateMany svc")
        case (Some err)
        with e Inr fo show ?thesis
          by (intro update_failed [of b err]) (simp_all add: addOverride_def Let_def)
      next
        case uo: None
        show ?thesis
        proof (cases "save svc")
          case (Some err)
          with e Inr fo uo o show ?thesis
            by (intro save_failed [of b err]) (simp_all add: addOverride_def Let_def)
        next
          case None
          with e Inr fo uo o show ?thesis
            by (intro saved [of b]) (simp_all add: addOverride_def Let_def)
        qed
      qed
    qed
  qed
qed

lemma addOverride_InrD:
  assumes "addOverride svc now lt ln dt vals email st = (Inr r, st')"
  shows "r = \<lparr>lat = lt, lon = ln, date = dt, newValues = vals, updatedAt = now,
            updatedBy = email,
            version = (case findOne_sorted (key_filter lt ln dt email) (overrides st) of
                         Some l \<Rightarrow> js_add1 (version l) | None \<Rightarrow> 1),
            active = True\<rparr>"
    and "overrides st' = updateMany_docs (key_filter lt ln dt email) (overrides st) @ [r]"
  using assms by (cases rule: addOverride_cases [of svc st now lt ln dt vals email]; simp)+

lemma addOverride_Inr_key:
  assumes "addOverride svc now lt ln dt vals email st = (Inr r, st')"
  shows "key_filter lt ln dt email r" "active r" "newValues r = vals" "updatedAt r = now"
  using addOverride_InrD(1) [OF assms] by (simp_all add: key_filter_def)

lemma active_docs_updateMany_docs:
  "active_docs lt ln dt email (updateMany_docs (key_filter lt ln dt email) docs) = []"
  by (induction docs) (auto simp: active_docs_def updateMany_docs_def active_key_filter_iff)

lemma active_docs_append:
  "active_docs lt ln dt email (xs @ ys) = active_docs lt ln dt email xs @ active_docs lt ln dt email ys"
  by (simp add: active_docs_def)

text \<open>
  Claim C1. Whatever the collection holds before, also several active documents for the
  key, a call of \<open>addOverride\<close> that returns a record has appended exactly that record,
  active and carrying the key, and has switched every earlier document of the key to
  inactive while leaving all other documents as they were. Afterwards the active
  documents of the key are the new record alone, and it sits at the one new position.
\<close>

theorem addOverride_single_active:
  assumes "addOverride svc now lt ln dt vals email st = (Inr r, st')"
  shows "length (overrides st') = Suc (length (overrides st)) \<and>
         overrides st' ! length (overrides st) = r \<and>
         key_filter lt ln dt email r \<and> active r \<and>
         (\<forall>i < length (overrides st).
            overrides st' ! i =
              (if key_filter lt ln dt email (overrides st ! i)
               then (overrides st ! i)\<lparr>active := False\<rparr> else overrides st ! i)) \<and>
         active_docs lt ln dt email (overrides st') = [r] \<and>
         (\<forall>i < length (overrides st').
            active_key_filter lt ln dt email (overrides st' ! i) \<longleftrightarrow> i = length (overrides st))"
proof -
  let ?K = "key_filter lt ln dt email"
  let ?old = "overrides st"
  note o = addOverride_InrD(2) [OF assms]
  note k = addOverride_Inr_key(1,2) [OF assms]
  have len: "length (overrides st') = Suc (length ?old)"
    by (simp add: o length_updateMany_docs)
  have new: "overrides st' ! length ?old = r"
    by (simp add: o nth_append length_updateMany_docs)
  have old: "overrides st' ! i = (if ?K (?old ! i) then (?old ! i)\<lparr>active := False\<rparr> else ?old ! i)"
    if "i < length ?old" for i
    using that by (simp add: o nth_append length_updateMany_docs nth_updateMany_docs set_inactive_def)
  have act: "active_docs lt ln dt email (overrides st') = [r]"
    using k by (simp add: o active_docs_append active_docs_updateMany_docs)
               (simp add: active_docs_def active_key_filter_iff)
  have idx: "active_key_filter lt ln dt email (overrides st' ! i) \<longleftrightarrow> i = length ?old"
    if "i < length (overrides st')" for i
  proof (cases "i = length ?old")
    case True
    with new k show ?thesis by (simp add: active_key_filter_iff)
  next
    case False
    with that len have "i < length ?old" by simp
    from old [OF this] False show ?thesis
      by (auto simp: active_key_filter_iff key_filter_def)
  qed
  from len new k old act idx show ?thesis by blast
qed

theorem addOverride_single_active_witness:
  "addOverride ok_service ''t3'' ''12.0'' ''77.0'' ''2024-01-01'' 30 ''a@x.com'' two_active =
     (Inr doc_a3,
      connected [doc_a1\<lparr>active := False\<rparr>, doc_b1, doc_a2\<lparr>active := False\<rparr>, doc_a3]) \<and>
   active_docs ''12.0'' ''77.0'' ''2024-01-01'' ''a@x.com'' (overrides two_active) = [doc_a1, doc_a2] \<and>
   active_docs ''12.0'' ''77.0'' ''2024-01-01'' ''a@x.com''
     (overrides (connected [doc_a1\<lparr>active := False\<rparr>, doc_b1, doc_a2\<lparr>active := False\<rparr>, doc_a3]))
     = [doc_a3]"
proof -
  have call: "addOverride ok_service ''t3'' ''12.0'' ''77.0'' ''2024-01-01'' 30 ''a@x.com'' two_active =
     (Inr doc_a3,
      connected [doc_a1\<lparr>active := False\<rparr>, doc_b1, doc_a2\<lparr>active := False\<rparr>, doc_a3])"
    by (simp add: helper_defs example_defs)
  have before: "active_docs ''12.0'' ''77.0'' ''2024-01-01'' ''a@x.com'' (overrides two_active)
      = [doc_a1, doc_a2]"
    by (simp add: helper_defs example_defs)
  from addOverride_single_active [OF call] call before show ?thesis by simp
qed

subsection \<open>Version numbers\<close>

lemma js_add1_exact: "v < 2 ^ 53 \<Longrightarrow> js_add1 v = v + 1"
  by (simp add: js_add1_def)

lemma js_add1_ge: "v \<le> js_add1 v"
  by (simp add: js_add1_def)

lemma filter_key_updateMany_docs:
  "filter (key_filter lt ln dt email) (updateMany_docs (key_filter lt ln dt email) docs) =
   map set_inactive (filter (key_filter lt ln dt email) docs)"
  by (induction docs) (simp_all add: updateMany_docs_def)

lemma top_version_Max:
  "top_version lt ln dt email docs =
   (if filter (key_filter lt ln dt email) docs = [] then 0
    else Max (version ` set (filter (key_filter lt ln dt email) docs)))"
  by (auto simp: top_version_def findOne_sorted_def latest_of_None dest: latest_of_Max
      split: option.splits)

lemma next_version_top:
  "next_version lt ln dt email docs =
   (if filter (key_filter lt ln dt email) docs = [] then 1
    else js_add1 (top_version lt ln dt email docs))"
  by (simp add: next_version_def top_version_def findOne_sorted_def latest_of_None
      split: option.splits)

lemma next_version_top': "next_version lt ln dt email docs = js_add1 (top_version lt ln dt email docs)"
  by (simp add: next_version_top top_version_Max js_add1_def)

lemma version_image_set_inactive: "version ` set_inactive ` A = version ` A"
  by (simp add: image_image)

lemma top_version_updateMany_docs:
  "top_version lt ln dt email (updateMany_docs (key_filter lt ln dt email) docs) =
   top_version lt ln dt email docs"
  by (simp add: top_version_Max filter_key_updateMany_docs version_image_set_inactive)

lemma top_version_append_new:
  assumes "key_filter lt ln dt email r" "top_version lt ln dt email docs \<le> version r"
  shows "top_version lt ln dt email (docs @ [r]) = version r"
proof (cases "filter (key_filter lt ln dt email) docs = []")
  case True
  with assms show ?thesis by (simp add: top_version_Max)
next
  case False
  let ?V = "version ` set (filter (key_filter lt ln dt email) docs)"
  have ne: "?V \<noteq> {}" using False by (auto simp: filter_empty_conv)
  have "Max (insert (version r) ?V) = max (version r) (Max ?V)"
    using ne by (simp add: Max_insert)
  also have "\<dots> = version r" using assms(2) False by (simp add: top_version_Max)
  finally show ?thesis using assms False by (simp add: top_version_Max)
qed

lemma addOverride_top_version_Inl:
  assumes "addOverride svc now lt ln dt vals email st = (Inl e, st')"
  shows "top_version lt ln dt email (overrides st') = top_version lt ln dt email (overrides st)"
  using assms
  by (cases rule: addOverride_cases [of svc st now lt ln dt vals email])
     (auto simp: ensureDb_overrides top_version_updateMany_docs)

lemma addOverride_top_version_Inr:
  assumes "addOverride svc now lt ln dt vals email st = (Inr r, st')"
  shows "version r = next_version lt ln dt email (overrides st)"
    and "top_version lt ln dt email (overrides st') = version r"
proof -
  show v: "version r = next_version lt ln dt email (overrides st)"
    using addOverride_InrD(1) [OF assms] by (simp add: next_version_def)
  have "top_version lt ln dt email (updateMany_docs (key_filter lt ln dt email) (overrides st))
      \<le> version r"
    by (simp add: v next_version_top' top_version_updateMany_docs js_add1_ge)
  from top_version_append_new [OF addOverride_Inr_key(1) [OF assms] this]
  show "top_version lt ln dt email (overrides st') = version r"
    by (simp add: addOverride_InrD(2) [OF assms])
qed

lemma add_all_versions:
  "add_all cs lt ln dt email st = (ress, st') \<Longrightarrow>
   top_version lt ln dt email (overrides st) + length (assigned_versions ress) \<le> 2 ^ 53 \<Longrightarrow>
   assigned_versions ress =
     [Suc (top_version lt ln dt email (overrides st)) ..<
      Suc (top_version lt ln dt email (overrides st) + length (assigned_versions ress))] \<and>
   top_version lt ln dt email (overrides st') =
     top_version lt ln dt email (overrides st) + length (assigned_versions ress)"
proof (induction cs arbitrary: st ress st')
  case Nil
  then show ?case by simp
next
  case (Cons c cs)
  obtain svc now vals where c: "c = (svc, now, vals)" by (cases c)
  obtain res st1 where a: "addOverride svc now lt ln dt vals email st = (res, st1)"
    by (cases "addOverride svc now lt ln dt vals email st")
  obtain ress1 st2 where r: "add_all cs lt ln dt email st1 = (ress1, st2)"
    by (cases "add_all cs lt ln dt email st1")
  from Cons.prems(1) c a r have eq: "ress = res # ress1" "st' = st2" by simp_all
  let ?a = "top_version lt ln dt email (overrides st)"
  let ?n = "length (assigned_versions ress1)"
  show ?case
  proof (cases res)
    case (Inl e)
    with a have same: "top_version lt ln dt email (overrides st1) = ?a"
      by (simp add: addOverride_top_version_Inl)
    from Cons.prems(2) eq Inl have "?a + ?n \<le> 2 ^ 53" by simp
    with Cons.IH [OF r] same Inl eq show ?thesis by simp
  next
    case (Inr r')
    from Cons.prems(2) eq Inr have bound: "?a + Suc ?n \<le> 2 ^ 53" by simp
    then have "?a < 2 ^ 53" by simp
    then have "js_add1 ?a = Suc ?a" by (simp add: js_add1_exact)
    with a Inr have v: "version r' = Suc ?a"
      and t: "top_version lt ln dt email (overrides st1) = Suc ?a"
      by (simp_all add: addOverride_top_version_Inr next_version_top')
    from bound t have "top_version lt ln dt email (overrides st1) + ?n \<le> 2 ^ 53" by simp
    from Cons.IH [OF r this] t
    have rest: "assigned_versions ress1 = [Suc (Suc ?a) ..< Suc (Suc ?a + ?n)]"
      and top: "top_version lt ln dt email (overrides st2) = Suc ?a + ?n" by simp_all
    have "[Suc ?a ..< Suc (?a + Suc ?n)] = Suc ?a # [Suc (Suc ?a) ..< Suc (?a + Suc ?n)]"
      by (rule upt_conv_Cons) simp
    with rest top Inr eq v show ?thesis by simp
  qed
qed

text \<open>
  Stored with version \<open>2^53\<close>, the latest document of a key gets a successor that carries the
  same version \<open>2^53\<close>, not \<open>2^53 + 1\<close>: the sum is rounded.
\<close>

theorem addOverride_versions_counterexample:
  "version doc_limit = 9007199254740992 \<and>
   addOverride ok_service ''t3'' ''12.0'' ''77.0'' ''2024-01-01'' 30 ''a@x.com''
       (connected [doc_limit]) =
     (Inr \<lparr>lat = ''12.0'', lon = ''77.0'', date = ''2024-01-01'', newValues = 30,
           updatedAt = ''t3'', updatedBy = ''a@x.com'', version = 9007199254740992,
           active = True\<rparr>,
      connected [doc_limit\<lparr>active := False\<rparr>,
                 \<lparr>lat = ''12.0'', lon = ''77.0'', date = ''2024-01-01'', newValues = 30,
                  updatedAt = ''t3'', updatedBy = ''a@x.com'', version = 9007199254740992,
                  active = True\<rparr>])"
  by (simp add: helper_defs example_defs)

text \<open>
  Claim C2, amended. A call of \<open>addOverride\<close> that returns a record gives it version 1 when
  the collection holds no document of the key, and one more than the greatest version among
  the documents of the key, active or not, when that greatest version is below \<open>2^53\<close>.
  Consequently, for calls made one after the other on a key that has no document at the
  start (in particular from the empty collection), the versions of the returned records are
  \<open>1, 2, 3, \<dots>\<close> in call order as long as no more than \<open>2^53\<close> records are returned; calls
  that fail in between return no record and use up no version.
\<close>

theorem addOverride_versions:
  "(addOverride svc now lt ln dt vals email st = (Inr r, st') \<longrightarrow>
      (filter (key_filter lt ln dt email) (overrides st) = [] \<longrightarrow> version r = 1) \<and>
      (filter (key_filter lt ln dt email) (overrides st) \<noteq> [] \<longrightarrow>
       Max (version ` set (filter (key_filter lt ln dt email) (overrides st))) < 2 ^ 53 \<longrightarrow>
         version r =
           Max (version ` set (filter (key_filter lt ln dt email) (overrides st))) + 1)) \<and>
   (filter (key_filter lt ln dt email) (overrides st0) = [] \<longrightarrow>
    add_all cs lt ln dt email st0 = (ress, st1) \<longrightarrow>
    length (assigned_versions ress) \<le> 2 ^ 53 \<longrightarrow>
      assigned_versions ress = [1 ..< Suc (length (assigned_versions ress))])"
proof (intro conjI impI)
  assume a: "addOverride svc now lt ln dt vals email st = (Inr r, st')"
  note v = addOverride_top_version_Inr(1) [OF a]
  { assume "filter (key_filter lt ln dt email) (overrides st) = []"
    with v show "version r = 1" by (simp add: next_version_top) }
  { assume "filter (key_filter lt ln dt email) (overrides st) \<noteq> []"
      and "Max (version ` set (filter (key_filter lt ln dt email) (overrides st))) < 2 ^ 53"
    with v show "version r =
        Max (version ` set (filter (key_filter lt ln dt email) (overrides st))) + 1"
      by (simp add: next_version_top top_version_Max js_add1_exact) }
next
  assume e: "filter (key_filter lt ln dt email) (overrides st0) = []"
    and r: "add_all cs lt ln dt email st0 = (ress, st1)"
    and n: "length (assigned_versions ress) \<le> 2 ^ 53"
  from e have "top_version lt ln dt email (overrides st0) = 0"
    by (simp add: top_version_Max)
  with add_all_versions [OF r] n
  show "assigned_versions ress = [1 ..< Suc (length (assigned_versions ress))]" by simp
qed

theorem addOverride_versions_witness:
  "addOverride ok_service ''t3'' ''12.0'' ''77.0'' ''2024-01-01'' 30 ''a@x.com'' two_active =
     (Inr doc_a3,
      connected [doc_a1\<lparr>active := False\<rparr>, doc_b1, doc_a2\<lparr>active := False\<rparr>, doc_a3]) \<and>
   Max {version doc_a1, version doc_a2} < 2 ^ 53 \<and>
   version doc_a3 = Max {version doc_a1, version doc_a2} + 1 \<and>
   filter (key_filter ''12.0'' ''77.0'' ''2024-01-01'' ''a@x.com'') (overrides fresh) = [] \<and>
   assigned_versions
     (fst (add_all [(ok_service, ''t1'', 10), (save_fails, ''t2'', 20), (ok_service, ''t3'', 30)]
             ''12.0'' ''77.0'' ''2024-01-01'' ''a@x.com'' fresh)) = [1, 2]"
proof -
  let ?cs = "[(ok_service, ''t1'', 10::nat), (save_fails, ''t2'', 20), (ok_service, ''t3'', 30)]"
  let ?R = "add_all ?cs ''12.0'' ''77.0'' ''2024-01-01'' ''a@x.com'' fresh"
  let ?st' = "connected [doc_a1\<lparr>active := False\<rparr>, doc_b1, doc_a2\<lparr>active := False\<rparr>, doc_a3]"
  note inst = addOverride_versions [of ok_service "''t3''" "''12.0''" "''77.0''" "''2024-01-01''" 30
      "''a@x.com''" two_active doc_a3 ?st' fresh ?cs "fst ?R" "snd ?R"]
  have call: "addOverride ok_service ''t3'' ''12.0'' ''77.0'' ''2024-01-01'' 30 ''a@x.com'' two_active =
     (Inr doc_a3, ?st')"
    by (simp add: helper_defs example_defs)
  have stored: "filter (key_filter ''12.0'' ''77.0'' ''2024-01-01'' ''a@x.com'') (overrides two_active)
      = [doc_a1, doc_a2]"
    by (simp add: key_filter_def example_defs)
  have small: "Max {version doc_a1, version doc_a2} < 2 ^ 53"
    by (simp add: example_defs)
  have empty: "filter (key_filter ''12.0'' ''77.0'' ''2024-01-01'' ''a@x.com'') (overrides fresh) = []"
    by (simp add: fresh_def)
  have len: "length (assigned_versions (fst ?R)) = 2"
    by (simp add: helper_defs example_defs)
  from inst call stored small have v: "version doc_a3 = Max {version doc_a1, version doc_a2} + 1"
    by simp
  have bound: "length (assigned_versions (fst ?R)) \<le> 2 ^ 53"
    using len by simp
  have run: "?R = (fst ?R, snd ?R)" by simp
  from inst [THEN conjunct2, rule_format, OF empty run bound]
  have "assigned_versions (fst ?R) = [1 ..< Suc (length (assigned_versions (fst ?R)))]" .
  with len have "assigned_versions (fst ?R) = [1, 2]"
    by (simp add: upt_rec)
  with call small v empty show ?thesis by simp
qed

subsection \<open>Reading the latest version\<close>

lemma getLatestOverride_overrides:
  "overrides (snd (getLatestOverride svc lt ln dt email st)) = overrides st"
proof -
  obtain res st1 where e: "ensureDb svc st = (res, st1)" by (cases "ensureDb svc st")
  with ensureDb_overrides' [OF e] show ?thesis
    by (simp add: getLatestOverride_def split: sum.splits option.splits)
qed

lemma getLatestOverride_InrD:
  assumes "fst (getLatestOverride svc lt ln dt email st) = Inr res"
  shows "res = findOne_sorted (active_key_filter lt ln dt email) (overrides st)"
proof -
  obtain x st1 where e: "ensureDb svc st = (x, st1)" by (cases "ensureDb svc st")
  with ensureDb_overrides' [OF e] assms show ?thesis
    by (simp add: getLatestOverride_def split: sum.splits option.splits)
qed

lemma findOne_sorted_None: "findOne_sorted flt docs = None \<longleftrightarrow> filter flt docs = []"
  by (simp add: findOne_sorted_def latest_of_None)

lemma findOne_sorted_Some:
  assumes "findOne_sorted flt docs = Some r"
  shows "r \<in> set docs" "flt r" "\<And>x. x \<in> set docs \<Longrightarrow> flt x \<Longrightarrow> version x \<le> version r"
proof -
  from assms have l: "latest_of (filter flt docs) = Some r" by (simp add: findOne_sorted_def)
  from latest_of_mem [OF l] show "r \<in> set docs" "flt r" by simp_all
  fix x assume "x \<in> set docs" "flt x"
  then have "x \<in> set (filter flt docs)" by simp
  from latest_of_greatest [OF l this] show "version x \<le> version r" .
qed

text \<open>
  Claim C3. \<open>getLatestOverride\<close> never changes the collection, whether it returns or
  throws. When it returns, the result is empty exactly if the key has no active document
  (so also if it has no document at all); otherwise the result is a stored document of the
  key that is active and whose version is at least that of every active document of the key.
\<close>

theorem getLatestOverride_result:
  "overrides (snd (getLatestOverride svc lt ln dt email st)) = overrides st \<and>
   (\<forall>res. fst (getLatestOverride svc lt ln dt email st) = Inr res \<longrightarrow>
      (res = None \<longleftrightarrow> active_docs lt ln dt email (overrides st) = []) \<and>
      (\<forall>r. res = Some r \<longrightarrow>
         r \<in> set (overrides st) \<and> key_filter lt ln dt email r \<and> active r \<and>
         (\<forall>x \<in> set (overrides st).
            key_filter lt ln dt email x \<and> active x \<longrightarrow> version x \<le> version r)))"
proof (intro conjI allI impI)
  show "overrides (snd (getLatestOverride svc lt ln dt email st)) = overrides st"
    by (rule getLatestOverride_overrides)
next
  fix res assume "fst (getLatestOverride svc lt ln dt email st) = Inr res"
  then have res: "res = findOne_sorted (active_key_filter lt ln dt email) (overrides st)"
    by (rule getLatestOverride_InrD)
  then show "res = None \<longleftrightarrow> active_docs lt ln dt email (overrides st) = []"
    by (simp add: findOne_sorted_None active_docs_def)
  fix r assume "res = Some r"
  with res have s: "findOne_sorted (active_key_filter lt ln dt email) (overrides st) = Some r"
    by simp
  from findOne_sorted_Some(1) [OF s] show "r \<in> set (overrides st)" .
  from findOne_sorted_Some(2) [OF s] show "key_filter lt ln dt email r" "active r"
    by (simp_all add: active_key_filter_iff)
  show "\<forall>x \<in> set (overrides st).
            key_filter lt ln dt email x \<and> active x \<longrightarrow> version x \<le> version r"
    using findOne_sorted_Some(3) [OF s] by (auto simp: active_key_filter_iff)
qed

theorem getLatestOverride_result_witness:
  "getLatestOverride ok_service ''12.0'' ''77.0'' ''2024-01-01'' ''a@x.com'' two_active =
     (Inr (Some doc_a2), two_active) \<and>
   doc_a2 \<in> set (overrides two_active) \<and> active doc_a2 \<and> version doc_a1 \<le> version doc_a2 \<and>
   doc_a1 \<in> set (overrides two_active) \<and> active doc_a1 \<and>
   key_filter ''12.0'' ''77.0'' ''2024-01-01'' ''a@x.com'' doc_a1"
proof -
  have call: "getLatestOverride ok_service ''12.0'' ''77.0'' ''2024-01-01'' ''a@x.com'' two_active =
     (Inr (Some doc_a2), two_active)"
    by (simp add: helper_defs example_defs)
  have a1: "doc_a1 \<in> set (overrides two_active)" "active doc_a1"
    "key_filter ''12.0'' ''77.0'' ''2024-01-01'' ''a@x.com'' doc_a1"
    by (simp_all add: key_filter_def example_defs)
  from getLatestOverride_result
         [of ok_service "''12.0''" "''77.0''" "''2024-01-01''" "''a@x.com''" two_active] call
  have "doc_a2 \<in> set (overrides two_active) \<and> active doc_a2 \<and>
     (\<forall>x \<in> set (overrides two_active).
        key_filter ''12.0'' ''77.0'' ''2024-01-01'' ''a@x.com'' x \<and> active x \<longrightarrow>
        version x \<le> version doc_a2)"
    by simp
  with a1 call show ?thesis by blast
qed

subsection \<open>Removing\<close>

lemma removeOverride_cases:
  obtains (connect_failed) e where "fst (ensureDb svc st) = Inl e"
      "removeOverride svc lt ln dt email st = (Inl e, snd (ensureDb svc st))"
  | (update_failed) b e where "fst (ensureDb svc st) = Inr b" "findOneAndUpdate svc = Some e"
      "removeOverride svc lt ln dt email st = (Inl e, snd (ensureDb svc st))"
  | (updated) b where "fst (ensureDb svc st) = Inr b" "findOneAndUpdate svc = None"
      "removeOverride svc lt ln dt email st =
         (Inr (fst (findOneAndUpdate_docs (active_key_filter lt ln dt email) (overrides st))),
          (snd (ensureDb svc st))\<lparr>overrides :=
             snd (findOneAndUpdate_docs (active_key_filter lt ln dt email) (overrides st))\<rparr>)"
proof -
  obtain res st1 where e: "ensureDb svc st = (res, st1)" by (cases "ensureDb svc st")
  have o: "overrides st1 = overrides st" using ensureDb_overrides' [OF e] .
  show thesis
  proof (cases res)
    case (Inl err)
    with e show ?thesis by (intro connect_failed [of err]) (simp_all add: removeOverride_def)
  next
    case (Inr b)
    show ?thesis
    proof (cases "findOneAndUpdate svc")
      case (Some err)
      with e Inr show ?thesis
        by (intro update_failed [of b err]) (simp_all add: removeOverride_def)
    next
      case None
      with e Inr o show ?thesis
        by (intro updated [of b]) (simp_all add: removeOverride_def split: prod.splits)
    qed
  qed
qed

lemma removeOverride_served:
  assumes "fst (ensureDb svc st) = Inr b" "findOneAndUpdate svc = None"
  shows "fst (removeOverride svc lt ln dt email st) =
           Inr (fst (findOneAndUpdate_docs (active_key_filter lt ln dt email) (overrides st)))"
    and "overrides (snd (removeOverride svc lt ln dt email st)) =
           snd (findOneAndUpdate_docs (active_key_filter lt ln dt email) (overrides st))"
  using assms by (cases rule: removeOverride_cases [of svc st lt ln dt email]; simp)+

lemma removeOverride_overrides:
  "overrides (snd (removeOverride svc lt ln dt email st)) = overrides st \<or>
   overrides (snd (removeOverride svc lt ln dt email st)) =
     snd (findOneAndUpdate_docs (active_key_filter lt ln dt email) (overrides st))"
  by (cases rule: removeOverride_cases [of svc st lt ln dt email])
     (simp_all add: ensureDb_overrides)

lemma findOneAndUpdate_docs_cases:
  obtains (no_match) "filter flt docs = []" "findOneAndUpdate_docs flt docs = (None, docs)"
  | (patched) i where "i < length docs" "flt (docs ! i)" "\<forall>j < i. \<not> flt (docs ! j)"
      "findOneAndUpdate_docs flt docs =
         (Some (set_inactive (docs ! i)), docs[i := set_inactive (docs ! i)])"
proof (cases "fst (findOneAndUpdate_docs flt docs)")
  case None
  then have "\<forall>r \<in> set docs. \<not> flt r" by (simp add: findOneAndUpdate_docs_None)
  then show ?thesis
    by (intro no_match) (simp_all add: filter_empty_conv findOneAndUpdate_docs_None_same)
next
  case (Some u)
  then have "findOneAndUpdate_docs flt docs = (Some u, snd (findOneAndUpdate_docs flt docs))"
    by (cases "findOneAndUpdate_docs flt docs") simp
  from findOneAndUpdate_docs_Some [OF this] this show ?thesis
    by (auto intro: patched)
qed

lemma active_docs_after_patch:
  "length (active_docs lt ln dt email
             (snd (findOneAndUpdate_docs (active_key_filter lt ln dt email) docs))) =
   length (active_docs lt ln dt email docs) - 1"
  by (induction docs)
     (auto simp: active_docs_def active_key_filter_iff split: prod.splits)

text \<open>
  With two active documents for the key, the first of two consecutive removals switches
  off only the earlier one: the key still has an active document afterwards, and the second
  removal returns a document instead of an empty result.
\<close>

theorem removeOverride_twice_counterexample:
  "removeOverride ok_service ''12.0'' ''77.0'' ''2024-01-01'' ''a@x.com'' two_active =
     (Inr (Some (doc_a1\<lparr>active := False\<rparr>)),
      connected [doc_a1\<lparr>active := False\<rparr>, doc_b1, doc_a2]) \<and>
   active_docs ''12.0'' ''77.0'' ''2024-01-01'' ''a@x.com''
     (overrides (connected [doc_a1\<lparr>active := False\<rparr>, doc_b1, doc_a2])) = [doc_a2] \<and>
   removeOverride ok_service ''12.0'' ''77.0'' ''2024-01-01'' ''a@x.com''
     (connected [doc_a1\<lparr>active := False\<rparr>, doc_b1, doc_a2]) =
     (Inr (Some (doc_a2\<lparr>active := False\<rparr>)),
      connected [doc_a1\<lparr>active := False\<rparr>, doc_b1, doc_a2\<lparr>active := False\<rparr>])"
  by (simp add: helper_defs example_defs)

text \<open>
  Claim C4, amended. Let the connection be available and the service carry out the update,
  for a first call of \<open>removeOverride\<close> and for a second one that follows it directly.
  If the key has no active document, the first call returns empty, raises nothing and
  leaves the collection as it is. If it has one, the call switches one active document of
  the key to inactive and returns it as updated. If the key has at most one active document
  before the first call, then it has none after the first call, the second call returns
  empty, and the key has none after the second call either.
\<close>

theorem removeOverride_result:
  assumes "fst (ensureDb svc st) = Inr b" and "findOneAndUpdate svc = None"
    and "removeOverride svc lt ln dt email st = (res, st')"
    and "fst (ensureDb svc2 st') = Inr b2" and "findOneAndUpdate svc2 = None"
    and "removeOverride svc2 lt ln dt email st' = (res2, st'')"
  shows "(active_docs lt ln dt email (overrides st) = [] \<longrightarrow>
            res = Inr None \<and> overrides st' = overrides st) \<and>
         (active_docs lt ln dt email (overrides st) \<noteq> [] \<longrightarrow>
            (\<exists>i < length (overrides st).
               active_key_filter lt ln dt email (overrides st ! i) \<and>
               res = Inr (Some ((overrides st ! i)\<lparr>active := False\<rparr>)) \<and>
               overrides st' = (overrides st)[i := (overrides st ! i)\<lparr>active := False\<rparr>])) \<and>
         (length (active_docs lt ln dt email (overrides st)) \<le> 1 \<longrightarrow>
            active_docs lt ln dt email (overrides st') = [] \<and>
            res2 = Inr None \<and>
            active_docs lt ln dt email (overrides st'') = [])"
proof -
  let ?F = "active_key_filter lt ln dt email"
  have first: "res = Inr None \<and> overrides st' = overrides st"
    if "active_docs lt ln dt email (overrides st) = []"
      and "fst (ensureDb svc st) = Inr b" "findOneAndUpdate svc = None"
      and "removeOverride svc lt ln dt email st = (res, st')"
    for svc b res and st st' :: "'a state"
  proof -
    from that(1) have "\<forall>r \<in> set (overrides st). \<not> ?F r"
      by (simp add: active_docs_def filter_empty_conv)
    then have "findOneAndUpdate_docs ?F (overrides st) = (None, overrides st)"
      by (rule findOneAndUpdate_docs_None_same)
    with removeOverride_served [OF that(2,3), of lt ln dt email] that(4)
    show ?thesis by simp
  qed
  have patched: "\<exists>i < length (overrides st).
               ?F (overrides st ! i) \<and>
               res = Inr (Some ((overrides st ! i)\<lparr>active := False\<rparr>)) \<and>
               overrides st' = (overrides st)[i := (overrides st ! i)\<lparr>active := False\<rparr>]"
    if ne: "active_docs lt ln dt email (overrides st) \<noteq> []"
  proof (cases rule: findOneAndUpdate_docs_cases [of ?F "overrides st"])
    case no_match
    with ne show ?thesis by (simp add: active_docs_def)
  next
    case (patched i)
    with removeOverride_served [OF assms(1,2), of lt ln dt email] assms(3)
    show ?thesis by (auto simp: set_inactive_def)
  qed
  have twice: "active_docs lt ln dt email (overrides st') = [] \<and> res2 = Inr None \<and>
            active_docs lt ln dt email (overrides st'') = []"
    if le: "length (active_docs lt ln dt email (overrides st)) \<le> 1"
  proof -
    have "overrides st' = snd (findOneAndUpdate_docs ?F (overrides st))"
      using removeOverride_served(2) [OF assms(1,2), of lt ln dt email] assms(3) by simp
    then have "length (active_docs lt ln dt email (overrides st')) =
        length (active_docs lt ln dt email (overrides st)) - 1"
      by (simp add: active_docs_after_patch)
    with le have none: "active_docs lt ln dt email (overrides st') = []" by simp
    from first [OF none assms(4,5,6)] none show ?thesis by simp
  qed
  from first [OF _ assms(1,2,3)] patched twice show ?thesis by blast
qed

theorem removeOverride_result_witness:
  "fst (ensureDb ok_service (connected [doc_a1\<lparr>active := False\<rparr>, doc_b1, doc_a2])) = Inr True \<and>
   findOneAndUpdate ok_service = None \<and>
   length (active_docs ''12.0'' ''77.0'' ''2024-01-01'' ''a@x.com''
     (overrides (connected [doc_a1\<lparr>active := False\<rparr>, doc_b1, doc_a2]))) \<le> 1 \<and>
   removeOverride ok_service ''12.0'' ''77.0'' ''2024-01-01'' ''a@x.com''
     (connected [doc_a1\<lparr>active := False\<rparr>, doc_b1, doc_a2]) =
     (Inr (Some (doc_a2\<lparr>active := False\<rparr>)),
      connected [doc_a1\<lparr>active := False\<rparr>, doc_b1, doc_a2\<lparr>active := False\<rparr>]) \<and>
   removeOverride ok_service ''12.0'' ''77.0'' ''2024-01-01'' ''a@x.com''
     (connected [doc_a1\<lparr>active := False\<rparr>, doc_b1, doc_a2\<lparr>active := False\<rparr>]) =
     (Inr None, connected [doc_a1\<lparr>active := False\<rparr>, doc_b1, doc_a2\<lparr>active := False\<rparr>]) \<and>
   active_docs ''12.0'' ''77.0'' ''2024-01-01'' ''a@x.com''
     (overrides (connected [doc_a1\<lparr>active := False\<rparr>, doc_b1, doc_a2\<lparr>active := False\<rparr>])) = []"
proof -
  let ?s1 = "connected [doc_a1\<lparr>active := False\<rparr>, doc_b1, doc_a2]"
  let ?s2 = "connected [doc_a1\<lparr>active := False\<rparr>, doc_b1, doc_a2\<lparr>active := False\<rparr>]"
  have c1: "fst (ensureDb ok_service ?s1) = Inr True" and c2: "fst (ensureDb ok_service ?s2) = Inr True"
    by (simp_all add: helper_defs example_defs)
  have s: "findOneAndUpdate ok_service = None" by (simp add: ok_service_def)
  have r1: "removeOverride ok_service ''12.0'' ''77.0'' ''2024-01-01'' ''a@x.com'' ?s1 =
     (Inr (Some (doc_a2\<lparr>active := False\<rparr>)), ?s2)"
    by (simp add: helper_defs example_defs)
  have r2: "removeOverride ok_service ''12.0'' ''77.0'' ''2024-01-01'' ''a@x.com'' ?s2 =
     (fst (removeOverride ok_service ''12.0'' ''77.0'' ''2024-01-01'' ''a@x.com'' ?s2),
      snd (removeOverride ok_service ''12.0'' ''77.0'' ''2024-01-01'' ''a@x.com'' ?s2))"
    by simp
  have one: "length (active_docs ''12.0'' ''77.0'' ''2024-01-01'' ''a@x.com'' (overrides ?s1)) \<le> 1"
    by (simp add: helper_defs example_defs)
  have same: "snd (removeOverride ok_service ''12.0'' ''77.0'' ''2024-01-01'' ''a@x.com'' ?s2) = ?s2"
    by (simp add: helper_defs example_defs)
  from removeOverride_result [OF c1 s r1 c2 s r2] one
  have "active_docs ''12.0'' ''77.0'' ''2024-01-01'' ''a@x.com'' (overrides ?s2) = [] \<and>
     fst (removeOverride ok_service ''12.0'' ''77.0'' ''2024-01-01'' ''a@x.com'' ?s2) = Inr None"
    by blast
  with c1 s one r1 same show ?thesis
    by (metis prod.collapse)
qed

subsection \<open>Adding, removing, reading\<close>

lemma not_active_key_updateMany_docs:
  "x \<in> set (updateMany_docs (key_filter lt ln dt email) docs) \<Longrightarrow>
   \<not> active_key_filter lt ln dt email x"
  by (auto simp: updateMany_docs_def active_key_filter_iff)

lemma findOneAndUpdate_docs_last:
  "\<forall>x \<in> set xs. \<not> flt x \<Longrightarrow> flt r \<Longrightarrow>
   findOneAndUpdate_docs flt (xs @ [r]) = (Some (set_inactive r), xs @ [set_inactive r])"
  by (induction xs) simp_all

lemma removeOverride_InrD:
  assumes "removeOverride svc lt ln dt email st = (Inr x, st')"
  shows "x = fst (findOneAndUpdate_docs (active_key_filter lt ln dt email) (overrides st))"
    and "overrides st' = snd (findOneAndUpdate_docs (active_key_filter lt ln dt email) (overrides st))"
proof -
  have "x = fst (findOneAndUpdate_docs (active_key_filter lt ln dt email) (overrides st)) \<and>
    overrides st' = snd (findOneAndUpdate_docs (active_key_filter lt ln dt email) (overrides st))"
  proof (cases rule: removeOverride_cases [of svc st lt ln dt email])
    case (connect_failed e)
    with assms show ?thesis by simp
  next
    case (update_failed b e)
    with assms show ?thesis by simp
  next
    case (updated b)
    with assms show ?thesis by auto
  qed
  then show "x = fst (findOneAndUpdate_docs (active_key_filter lt ln dt email) (overrides st))"
    and "overrides st' = snd (findOneAndUpdate_docs (active_key_filter lt ln dt email) (overrides st))"
    by simp_all
qed

text \<open>
  Claim C5. When \<open>addOverride\<close>, \<open>removeOverride\<close> and \<open>getLatestOverride\<close> are called
  in this order on one key and each returns, the removal returns the added record switched
  to inactive, the read returns empty, and the added record is still stored, inactive, at
  the position where it was inserted.
\<close>

theorem add_remove_getLatest:
  assumes "addOverride svc1 now lt ln dt vals email st = (Inr r, st1)"
    and "removeOverride svc2 lt ln dt email st1 = (Inr x, st2)"
    and "getLatestOverride svc3 lt ln dt email st2 = (Inr res, st3)"
  shows "res = None \<and> x = Some (r\<lparr>active := False\<rparr>) \<and>
         length (overrides st3) = Suc (length (overrides st)) \<and>
         overrides st3 ! length (overrides st) = r\<lparr>active := False\<rparr>"
proof -
  let ?K = "key_filter lt ln dt email" and ?F = "active_key_filter lt ln dt email"
  let ?old = "updateMany_docs ?K (overrides st)"
  have o1: "overrides st1 = ?old @ [r]" by (rule addOverride_InrD(2) [OF assms(1)])
  have r: "?F r" using addOverride_Inr_key(1,2) [OF assms(1)] by (simp add: active_key_filter_iff)
  have old: "\<forall>y \<in> set ?old. \<not> ?F y" by (blast dest: not_active_key_updateMany_docs)
  have patch: "findOneAndUpdate_docs ?F (overrides st1) =
      (Some (set_inactive r), ?old @ [set_inactive r])"
    unfolding o1 by (rule findOneAndUpdate_docs_last [OF old r])
  have x: "x = Some (set_inactive r)" and o2: "overrides st2 = ?old @ [set_inactive r]"
    using removeOverride_InrD [OF assms(2)] by (simp_all add: patch)
  have "active_docs lt ln dt email (overrides st2) = []"
    using old by (simp add: o2 active_docs_def filter_empty_conv active_key_filter_iff)
  moreover from assms(3) have "fst (getLatestOverride svc3 lt ln dt email st2) = Inr res" by simp
  then have "res = findOne_sorted ?F (overrides st2)" by (rule getLatestOverride_InrD)
  ultimately have res: "res = None" by (simp add: findOne_sorted_None active_docs_def)
  have o3: "overrides st3 = overrides st2"
    using getLatestOverride_overrides [of svc3 lt ln dt email st2] assms(3) by simp
  from res x o3 show ?thesis
    by (simp add: o2 set_inactive_def length_updateMany_docs nth_append)
qed

theorem add_remove_getLatest_witness:
  "addOverride ok_service ''t3'' ''12.0'' ''77.0'' ''2024-01-01'' 30 ''a@x.com'' two_active =
     (Inr doc_a3,
      connected [doc_a1\<lparr>active := False\<rparr>, doc_b1, doc_a2\<lparr>active := False\<rparr>, doc_a3]) \<and>
   removeOverride ok_service ''12.0'' ''77.0'' ''2024-01-01'' ''a@x.com''
     (connected [doc_a1\<lparr>active := False\<rparr>, doc_b1, doc_a2\<lparr>active := False\<rparr>, doc_a3]) =
     (Inr (Some (doc_a3\<lparr>active := False\<rparr>)),
      connected [doc_a1\<lparr>active := False\<rparr>, doc_b1, doc_a2\<lparr>active := False\<rparr>,
                 doc_a3\<lparr>active := False\<rparr>]) \<and>
   getLatestOverride ok_service ''12.0'' ''77.0'' ''2024-01-01'' ''a@x.com''
     (connected [doc_a1\<lparr>active := False\<rparr>, doc_b1, doc_a2\<lparr>active := False\<rparr>,
                 doc_a3\<lparr>active := False\<rparr>]) =
     (Inr None,
      connected [doc_a1\<lparr>active := False\<rparr>, doc_b1, doc_a2\<lparr>active := False\<rparr>,
                 doc_a3\<lparr>active := False\<rparr>])"
proof -
  let ?s1 = "connected [doc_a1\<lparr>active := False\<rparr>, doc_b1, doc_a2\<lparr>active := False\<rparr>, doc_a3]"
  let ?s2 = "connected [doc_a1\<lparr>active := False\<rparr>, doc_b1, doc_a2\<lparr>active := False\<rparr>,
                 doc_a3\<lparr>active := False\<rparr>]"
  let ?g = "getLatestOverride ok_service ''12.0'' ''77.0'' ''2024-01-01'' ''a@x.com'' ?s2"
  have a: "addOverride ok_service ''t3'' ''12.0'' ''77.0'' ''2024-01-01'' 30 ''a@x.com'' two_active =
     (Inr doc_a3, ?s1)"
    by (simp add: helper_defs example_defs)
  have rm: "removeOverride ok_service ''12.0'' ''77.0'' ''2024-01-01'' ''a@x.com'' ?s1 =
     (Inr (Some (doc_a3\<lparr>active := False\<rparr>)), ?s2)"
    by (simp add: helper_defs example_defs)
  have g: "?g = (Inr (findOne_sorted (active_key_filter ''12.0'' ''77.0'' ''2024-01-01'' ''a@x.com'')
                        (overrides ?s2)), ?s2)"
    by (simp add: getLatestOverride_def ensureDb_def ensureDb_call_def uri_missing_def
        connected_def ok_service_def)
  from add_remove_getLatest [OF a rm g]
  have "findOne_sorted (active_key_filter ''12.0'' ''77.0'' ''2024-01-01'' ''a@x.com'')
          (overrides ?s2) = None" by simp
  with a rm g show ?thesis by simp
qed

subsection \<open>A failed insert\<close>

text \<open>
  Claim C9. When the connection is available, the lookup and the bulk update are carried
  out and the insert is rejected with \<open>e\<close>, \<open>addOverride\<close> throws \<open>e\<close>, yet the bulk update
  stays: every document of the key is inactive, no document was added, the key has no
  active document, and the collection differs from the one before whenever the key had an
  active document.
\<close>

theorem addOverride_save_fails:
  assumes "fst (ensureDb svc st) = Inr b" and "findOne svc = None" and "updateMany svc = None"
    and "save svc = Some e"
    and "addOverride svc now lt ln dt vals email st = (res, st')"
  shows "res = Inl e \<and>
         overrides st' =
           map (\<lambda>x. if key_filter lt ln dt email x then x\<lparr>active := False\<rparr> else x) (overrides st) \<and>
         length (overrides st') = length (overrides st) \<and>
         active_docs lt ln dt email (overrides st') = [] \<and>
         (active_docs lt ln dt email (overrides st) \<noteq> [] \<longrightarrow> overrides st' \<noteq> overrides st)"
proof -
  have "res = Inl e \<and>
    overrides st' = updateMany_docs (key_filter lt ln dt email) (overrides st)"
  proof (cases rule: addOverride_cases [of svc st now lt ln dt vals email])
    case (save_failed b' e')
    with assms(4,5) show ?thesis by auto
  qed (use assms in simp_all)
  then have res: "res = Inl e"
    and o: "overrides st' = updateMany_docs (key_filter lt ln dt email) (overrides st)"
    by simp_all
  have none: "active_docs lt ln dt email (overrides st') = []"
    by (simp add: o active_docs_updateMany_docs)
  have m: "overrides st' =
      map (\<lambda>x. if key_filter lt ln dt email x then x\<lparr>active := False\<rparr> else x) (overrides st)"
    by (simp add: o updateMany_docs_def set_inactive_def)
  have len: "length (overrides st') = length (overrides st)"
    by (simp add: o length_updateMany_docs)
  have "overrides st' \<noteq> overrides st" if "active_docs lt ln dt email (overrides st) \<noteq> []"
    using that none by auto
  with res m len none show ?thesis by blast
qed

theorem addOverride_save_fails_witness:
  "fst (ensureDb save_fails two_active) = Inr True \<and> findOne save_fails = None \<and>
   updateMany save_fails = None \<and> save save_fails = Some (Error ''insert failed'') \<and>
   active_docs ''12.0'' ''77.0'' ''2024-01-01'' ''a@x.com'' (overrides two_active) \<noteq> [] \<and>
   addOverride save_fails ''t3'' ''12.0'' ''77.0'' ''2024-01-01'' 30 ''a@x.com'' two_active =
     (Inl (Error ''insert failed''),
      connected [doc_a1\<lparr>active := False\<rparr>, doc_b1, doc_a2\<lparr>active := False\<rparr>]) \<and>
   overrides (connected [doc_a1\<lparr>active := False\<rparr>, doc_b1, doc_a2\<lparr>active := False\<rparr>])
     \<noteq> overrides two_active"
proof -
  let ?s1 = "connected [doc_a1\<lparr>active := False\<rparr>, doc_b1, doc_a2\<lparr>active := False\<rparr>]"
  have c: "fst (ensureDb save_fails two_active) = Inr True"
    and s: "findOne save_fails = None" "updateMany save_fails = None"
      "save save_fails = Some (Error ''insert failed'')"
    by (simp_all add: helper_defs example_defs)
  have ne: "active_docs ''12.0'' ''77.0'' ''2024-01-01'' ''a@x.com'' (overrides two_active) \<noteq> []"
    by (simp add: helper_defs example_defs)
  have a: "addOverride save_fails ''t3'' ''12.0'' ''77.0'' ''2024-01-01'' 30 ''a@x.com'' two_active =
     (Inl (Error ''insert failed''), ?s1)"
    by (simp add: helper_defs example_defs)
  have "active_docs ''12.0'' ''77.0'' ''2024-01-01'' ''a@x.com'' (overrides two_active) \<noteq> []
    \<longrightarrow> overrides ?s1 \<noteq> overrides two_active"
    using addOverride_save_fails [OF c s a] by (elim conjE)
  with ne have "overrides ?s1 \<noteq> overrides two_active" by (rule mp [rotated])
  with c s ne a show ?thesis by simp
qed

subsection \<open>What a removal leaves alone\<close>

lemma length_changed_positions:
  assumes "i < length docs"
  shows "length (filter (\<lambda>j. docs[i := v] ! j \<noteq> docs ! j) [0 ..< length docs]) \<le> 1"
proof -
  let ?C = "filter (\<lambda>j. docs[i := v] ! j \<noteq> docs ! j) [0 ..< length docs]"
  have "j = i" if "docs[i := v] ! j \<noteq> docs ! j" for j
    using that by (cases "j = i") simp_all
  then have "set ?C \<subseteq> {i}" by auto
  then have "card (set ?C) \<le> card {i}" by (intro card_mono) simp_all
  moreover have "distinct ?C" by simp
  ultimately show ?thesis by (simp add: distinct_card del: set_filter)
qed

text \<open>
  Claim C10. Whatever \<open>removeOverride\<close> returns or throws, the collection afterwards is
  the one before, or the one before with a single active document of the key switched to
  inactive: no document is added or dropped, and at most one position differs, also when
  the key has several active documents.
\<close>

theorem removeOverride_frame:
  assumes "removeOverride svc lt ln dt email st = (res, st')"
  shows "(overrides st' = overrides st \<or>
          (\<exists>i < length (overrides st).
             active_key_filter lt ln dt email (overrides st ! i) \<and>
             overrides st' = (overrides st)[i := (overrides st ! i)\<lparr>active := False\<rparr>])) \<and>
         length (overrides st') = length (overrides st) \<and>
         length (filter (\<lambda>j. overrides st' ! j \<noteq> overrides st ! j) [0 ..< length (overrides st)]) \<le> 1"
proof -
  let ?F = "active_key_filter lt ln dt email"
  have alt: "overrides st' = overrides st \<or>
          (\<exists>i < length (overrides st). ?F (overrides st ! i) \<and>
             overrides st' = (overrides st)[i := (overrides st ! i)\<lparr>active := False\<rparr>])"
  proof (cases rule: findOneAndUpdate_docs_cases [of ?F "overrides st"])
    case no_match
    with removeOverride_overrides [of svc lt ln dt email st] assms show ?thesis by simp
  next
    case (patched i)
    with removeOverride_overrides [of svc lt ln dt email st] assms show ?thesis
      by (auto simp: set_inactive_def)
  qed
  then have len: "length (overrides st') = length (overrides st)" by auto
  have "length (filter (\<lambda>j. overrides st' ! j \<noteq> overrides st ! j)
      [0 ..< length (overrides st)]) \<le> 1"
  proof (cases "overrides st' = overrides st")
    case True
    then show ?thesis by simp
  next
    case False
    with alt obtain i where "i < length (overrides st)"
      "overrides st' = (overrides st)[i := (overrides st ! i)\<lparr>active := False\<rparr>]" by blast
    then show ?thesis using length_changed_positions [of i "overrides st"] by simp
  qed
  with alt len show ?thesis by simp
qed

theorem removeOverride_frame_witness:
  "removeOverride ok_service ''12.0'' ''77.0'' ''2024-01-01'' ''a@x.com'' two_active =
     (Inr (Some (doc_a1\<lparr>active := False\<rparr>)),
      connected [doc_a1\<lparr>active := False\<rparr>, doc_b1, doc_a2]) \<and>
   overrides (connected [doc_a1\<lparr>active := False\<rparr>, doc_b1, doc_a2]) =
     (overrides two_active)[0 := (overrides two_active ! 0)\<lparr>active := False\<rparr>] \<and>
   active_key_filter ''12.0'' ''77.0'' ''2024-01-01'' ''a@x.com'' (overrides two_active ! 0) \<and>
   length (filter (\<lambda>j. overrides (connected [doc_a1\<lparr>active := False\<rparr>, doc_b1, doc_a2]) ! j
                        \<noteq> overrides two_active ! j)
             [0 ..< length (overrides two_active)]) \<le> 1"
proof -
  let ?s1 = "connected [doc_a1\<lparr>active := False\<rparr>, doc_b1, doc_a2]"
  have r: "removeOverride ok_service ''12.0'' ''77.0'' ''2024-01-01'' ''a@x.com'' two_active =
     (Inr (Some (doc_a1\<lparr>active := False\<rparr>)), ?s1)"
    by (simp add: helper_defs example_defs)
  have u: "overrides ?s1 = (overrides two_active)[0 := (overrides two_active ! 0)\<lparr>active := False\<rparr>]"
    and f: "active_key_filter ''12.0'' ''77.0'' ''2024-01-01'' ''a@x.com'' (overrides two_active ! 0)"
    by (simp_all add: helper_defs example_defs)
  from removeOverride_frame [OF r]
  have "length (filter (\<lambda>j. overrides ?s1 ! j \<noteq> overrides two_active ! j)
             [0 ..< length (overrides two_active)]) \<le> 1" by simp
  with r u f show ?thesis by simp
qed

subsection \<open>Stored documents over time\<close>

lemma only_deactivates_nth:
  "only_deactivates docs docs' \<longleftrightarrow>
   length docs \<le> length docs' \<and>
   (\<forall>i < length docs. deactivated_or_same (docs ! i) (docs' ! i))"
  by (auto simp: only_deactivates_def list_all2_conv_all_nth)

lemma only_deactivates_refl: "only_deactivates docs docs"
  by (simp add: only_deactivates_nth deactivated_or_same_def)

lemma deactivated_or_same_trans:
  "deactivated_or_same a b \<Longrightarrow> deactivated_or_same b c \<Longrightarrow> deactivated_or_same a c"
  by (auto simp: deactivated_or_same_def)

lemma only_deactivates_trans:
  assumes "only_deactivates xs ys" "only_deactivates ys zs"
  shows "only_deactivates xs zs"
proof -
  from assms have len: "length xs \<le> length ys" "length ys \<le> length zs"
    by (simp_all add: only_deactivates_nth)
  have "deactivated_or_same (xs ! i) (zs ! i)" if "i < length xs" for i
  proof -
    from that len have "i < length ys" by simp
    with assms that show ?thesis
      by (auto simp: only_deactivates_nth intro: deactivated_or_same_trans)
  qed
  with len show ?thesis by (simp add: only_deactivates_nth)
qed

lemma only_deactivates_updateMany_docs: "only_deactivates docs (updateMany_docs flt docs)"
  by (simp add: only_deactivates_nth length_updateMany_docs nth_updateMany_docs
      deactivated_or_same_def set_inactive_def)

lemma only_deactivates_append: "only_deactivates docs docs' \<Longrightarrow> only_deactivates docs (docs' @ rs)"
  by (auto simp: only_deactivates_nth nth_append)

lemma only_deactivates_patch:
  "only_deactivates docs (snd (findOneAndUpdate_docs flt docs))"
proof (cases rule: findOneAndUpdate_docs_cases [of flt docs])
  case no_match
  then show ?thesis by (simp add: only_deactivates_refl)
next
  case (patched i)
  then show ?thesis
    by (simp add: only_deactivates_nth nth_list_update deactivated_or_same_def set_inactive_def)
qed

lemma addOverride_only_deactivates:
  "only_deactivates (overrides st) (overrides (snd (addOverride svc now lt ln dt vals email st)))"
  by (cases rule: addOverride_cases [of svc st now lt ln dt vals email])
     (simp_all add: ensureDb_overrides only_deactivates_refl only_deactivates_updateMany_docs
        only_deactivates_append)

lemma removeOverride_only_deactivates:
  "only_deactivates (overrides st) (overrides (snd (removeOverride svc lt ln dt email st)))"
  using removeOverride_overrides [of svc lt ln dt email st]
  by (auto simp: only_deactivates_refl only_deactivates_patch)

lemma perform_only_deactivates:
  "only_deactivates (overrides st) (overrides (perform c st))"
proof -
  obtain svc k where c: "c = (svc, k)" by (cases c)
  show ?thesis unfolding c
    by (cases k)
       (simp_all add: getLatestOverride_overrides only_deactivates_refl
          addOverride_only_deactivates removeOverride_only_deactivates)
qed

lemma run_keeps_documents:
  "only_deactivates (overrides st) (overrides (run calls st))"
proof (induction calls arbitrary: st)
  case Nil
  show ?case by (simp add: run_def only_deactivates_refl)
next
  case (Cons c cs)
  have "run (c # cs) st = run cs (perform c st)" by (simp add: run_def)
  with perform_only_deactivates [of st c] Cons.IH [of "perform c st"]
  show ?case by (auto intro: only_deactivates_trans)
qed

text \<open>
  Claim C7. Over any sequence of calls of the three helpers, whatever the service answers,
  a stored document stays stored at its position, every field other than \<open>active\<close> keeps its
  value, and a document that is inactive stays inactive. The statement holds from every
  state, hence from every intermediate state of a longer sequence.
\<close>

theorem run_only_deactivates:
  assumes "i < length (overrides st)"
  shows "i < length (overrides (run calls st)) \<and>
         (overrides (run calls st) ! i)\<lparr>active := active (overrides st ! i)\<rparr> = overrides st ! i \<and>
         (\<not> active (overrides st ! i) \<longrightarrow> \<not> active (overrides (run calls st) ! i))"
proof -
  from run_keeps_documents [of st calls] assms
  have "i < length (overrides (run calls st))"
    and "deactivated_or_same (overrides st ! i) (overrides (run calls st) ! i)"
    by (simp_all add: only_deactivates_nth)
  then show ?thesis by (auto simp: deactivated_or_same_def)
qed

theorem run_only_deactivates_witness:
  "(0::nat) < length (overrides two_active) \<and>
   run [(ok_service, Remove ''12.0'' ''77.0'' ''2024-01-01'' ''a@x.com''),
        (ok_service, Add ''t3'' ''12.0'' ''77.0'' ''2024-01-01'' 30 ''a@x.com''),
        (ok_service, GetLatest ''12.0'' ''77.0'' ''2024-01-01'' ''a@x.com'')] two_active =
     connected [doc_a1\<lparr>active := False\<rparr>, doc_b1, doc_a2\<lparr>active := False\<rparr>, doc_a3] \<and>
   (overrides (connected [doc_a1\<lparr>active := False\<rparr>, doc_b1, doc_a2\<lparr>active := False\<rparr>, doc_a3]) ! 0)
      \<lparr>active := active (overrides two_active ! 0)\<rparr> = overrides two_active ! 0 \<and>
   \<not> active (overrides (connected [doc_a1\<lparr>active := False\<rparr>, doc_b1, doc_a2]) ! 0) \<and>
   \<not> active (overrides
       (run [(ok_service, Add ''t3'' ''12.0'' ''77.0'' ''2024-01-01'' 30 ''a@x.com'')]
          (connected [doc_a1\<lparr>active := False\<rparr>, doc_b1, doc_a2])) ! 0)"
proof -
  let ?cs = "[(ok_service, Remove ''12.0'' ''77.0'' ''2024-01-01'' ''a@x.com''),
        (ok_service, Add ''t3'' ''12.0'' ''77.0'' ''2024-01-01'' 30 ''a@x.com''),
        (ok_service, GetLatest ''12.0'' ''77.0'' ''2024-01-01'' ''a@x.com'')]"
  let ?s1 = "connected [doc_a1\<lparr>active := False\<rparr>, doc_b1, doc_a2]"
  let ?s3 = "connected [doc_a1\<lparr>active := False\<rparr>, doc_b1, doc_a2\<lparr>active := False\<rparr>, doc_a3]"
  have i: "(0::nat) < length (overrides two_active)" "(0::nat) < length (overrides ?s1)"
    by (simp_all add: example_defs)
  have r: "run ?cs two_active = ?s3"
    by (simp add: run_def helper_defs example_defs)
  have off: "\<not> active (overrides ?s1 ! 0)" by (simp add: example_defs)
  from run_only_deactivates [OF i(1), of ?cs] r
  have "(overrides ?s3 ! 0)\<lparr>active := active (overrides two_active ! 0)\<rparr> = overrides two_active ! 0"
    by simp
  moreover from run_only_deactivates [OF i(2),
      of "[(ok_service, Add ''t3'' ''12.0'' ''77.0'' ''2024-01-01'' 30 ''a@x.com'')]"] off
  have "\<not> active (overrides
       (run [(ok_service, Add ''t3'' ''12.0'' ''77.0'' ''2024-01-01'' 30 ''a@x.com'')] ?s1) ! 0)"
    by simp
  ultimately show ?thesis using i r off by simp
qed

subsection \<open>Other owners\<close>

lemma fst_ensureDb_overrides:
  "fst (ensureDb svc (st\<lparr>overrides := docs\<rparr>)) = fst (ensureDb svc st)"
  by (simp add: ensureDb_def ensureDb_call_def split: option.splits promise.splits)

lemma fst_addOverride:
  "fst (addOverride svc now lt ln dt vals email st) =
     (case fst (ensureDb svc st) of
        Inl e \<Rightarrow> Inl e
      | Inr b \<Rightarrow>
          (case findOne svc of
             Some e \<Rightarrow> Inl e
           | None \<Rightarrow>
               (case updateMany svc of
                  Some e \<Rightarrow> Inl e
                | None \<Rightarrow>
                    (case save svc of
                       Some e \<Rightarrow> Inl e
                     | None \<Rightarrow>
                         Inr \<lparr>lat = lt, lon = ln, date = dt, newValues = vals, updatedAt = now,
                              updatedBy = email,
                              version = next_version lt ln dt email (overrides st),
                              active = True\<rparr>))))"
  by (cases rule: addOverride_cases [of svc st now lt ln dt vals email])
     (simp_all add: next_version_def)

lemma filter_key_other_owner:
  assumes "a \<noteq> b"
  shows "filter (key_filter lt ln dt a) (filter (\<lambda>x. updatedBy x \<noteq> b) docs) =
         filter (key_filter lt ln dt a) docs"
  using assms by (induction docs) (auto simp: key_filter_def)

text \<open>
  Claim C6. For owners \<open>a \<noteq> b\<close>, a call of \<open>addOverride\<close> under \<open>a\<close> leaves every stored
  document of \<open>b\<close> exactly as it was, so in particular those at the same location and date,
  with their versions and active flags. What the call returns (the new record with its
  version, or the error) is the same for any two collections that agree on the documents
  not owned by \<open>b\<close>: the documents of \<open>b\<close> do not enter the computation.
\<close>

theorem addOverride_other_owner:
  assumes "a \<noteq> b"
  shows "(\<forall>i < length (overrides st).
            updatedBy (overrides st ! i) = b \<longrightarrow>
            overrides (snd (addOverride svc now lt ln dt vals a st)) ! i = overrides st ! i) \<and>
         (filter (\<lambda>x. updatedBy x \<noteq> b) docs' = filter (\<lambda>x. updatedBy x \<noteq> b) (overrides st) \<longrightarrow>
            fst (addOverride svc now lt ln dt vals a (st\<lparr>overrides := docs'\<rparr>)) =
            fst (addOverride svc now lt ln dt vals a st))"
proof (intro conjI allI impI)
  fix i assume i: "i < length (overrides st)" and b: "updatedBy (overrides st ! i) = b"
  from b assms have nk: "\<not> key_filter lt ln dt a (overrides st ! i)" by (auto simp: key_filter_def)
  show "overrides (snd (addOverride svc now lt ln dt vals a st)) ! i = overrides st ! i"
    by (cases rule: addOverride_cases [of svc st now lt ln dt vals a])
       (simp_all add: ensureDb_overrides nth_append length_updateMany_docs nth_updateMany_docs i nk)
next
  assume "filter (\<lambda>x. updatedBy x \<noteq> b) docs' = filter (\<lambda>x. updatedBy x \<noteq> b) (overrides st)"
  then have "filter (key_filter lt ln dt a) (filter (\<lambda>x. updatedBy x \<noteq> b) docs') =
      filter (key_filter lt ln dt a) (filter (\<lambda>x. updatedBy x \<noteq> b) (overrides st))"
    by simp
  then have "filter (key_filter lt ln dt a) docs' = filter (key_filter lt ln dt a) (overrides st)"
    by (simp only: filter_key_other_owner [OF assms])
  then have "next_version lt ln dt a docs' = next_version lt ln dt a (overrides st)"
    by (simp add: next_version_def findOne_sorted_def)
  then show "fst (addOverride svc now lt ln dt vals a (st\<lparr>overrides := docs'\<rparr>)) =
      fst (addOverride svc now lt ln dt vals a st)"
    by (simp add: fst_addOverride fst_ensureDb_overrides split: sum.splits option.splits)
qed

theorem addOverride_other_owner_witness:
  "''a@x.com'' \<noteq> ''b@x.com'' \<and> (1::nat) < length (overrides two_active) \<and>
   updatedBy (overrides two_active ! 1) = ''b@x.com'' \<and>
   overrides (snd (addOverride ok_service ''t3'' ''12.0'' ''77.0'' ''2024-01-01'' 30 ''a@x.com''
                     two_active)) ! 1 = doc_b1 \<and>
   filter (\<lambda>x. updatedBy x \<noteq> ''b@x.com'') [doc_a1, doc_a2] =
     filter (\<lambda>x. updatedBy x \<noteq> ''b@x.com'') (overrides two_active) \<and>
   fst (addOverride ok_service ''t3'' ''12.0'' ''77.0'' ''2024-01-01'' 30 ''a@x.com''
          (two_active\<lparr>overrides := [doc_a1, doc_a2]\<rparr>)) = Inr doc_a3 \<and>
   fst (addOverride ok_service ''t3'' ''12.0'' ''77.0'' ''2024-01-01'' 30 ''a@x.com'' two_active) =
     Inr doc_a3"
proof -
  have ne: "''a@x.com'' \<noteq> ''b@x.com''" by simp
  note inst = addOverride_other_owner [OF ne, of two_active ok_service "''t3''" "''12.0''" "''77.0''"
      "''2024-01-01''" 30 "[doc_a1, doc_a2]"]
  have i: "(1::nat) < length (overrides two_active)"
    and b: "updatedBy (overrides two_active ! 1) = ''b@x.com''"
    and d: "overrides two_active ! 1 = doc_b1"
    by (simp_all add: example_defs)
  have f: "filter (\<lambda>x. updatedBy x \<noteq> ''b@x.com'') [doc_a1, doc_a2] =
     filter (\<lambda>x. updatedBy x \<noteq> ''b@x.com'') (overrides two_active)"
    by (simp add: example_defs)
  have without: "fst (addOverride ok_service ''t3'' ''12.0'' ''77.0'' ''2024-01-01'' 30 ''a@x.com''
          (two_active\<lparr>overrides := [doc_a1, doc_a2]\<rparr>)) = Inr doc_a3"
    by (simp add: helper_defs example_defs)
  from inst i b d have "overrides (snd (addOverride ok_service ''t3'' ''12.0'' ''77.0''
      ''2024-01-01'' 30 ''a@x.com'' two_active)) ! 1 = doc_b1"
    by simp
  moreover from inst f without
  have "fst (addOverride ok_service ''t3'' ''12.0'' ''77.0'' ''2024-01-01'' 30 ''a@x.com'' two_active) =
     Inr doc_a3"
    by simp
  ultimately show ?thesis using ne i b f without by simp
qed

subsection \<open>Connecting once\<close>

lemma ensureDb_call_idle:
  assumes "\<not> uri_missing (MONGO_URI st)" "readyState st \<noteq> 1" "connectingPromise st = None"
  shows "ensureDb_call st = (Awaits, attempt_started st)"
  using assms by (simp add: ensureDb_call_def attempt_started_def)

lemma ensureDb_calls_pending:
  assumes "\<not> uri_missing (MONGO_URI st)" "readyState st \<noteq> 1"
    "connectingPromise st = Some Pending"
  shows "ensureDb_calls n st = (replicate n Awaits, st)"
  using assms by (induction n) (simp_all add: ensureDb_call_def)

lemma ensureDb_calls_fulfilled:
  assumes "\<not> uri_missing (MONGO_URI st)" "connectingPromise st = Some (Fulfilled True)"
  shows "ensureDb_calls n st = (replicate n (Returns True), st)"
  using assms by (induction n) (simp_all add: ensureDb_call_def)

lemma ensureDb_calls_idle:
  assumes "\<not> uri_missing (MONGO_URI st)" "readyState st \<noteq> 1" "connectingPromise st = None"
  shows "ensureDb_calls (Suc n) st = (replicate (Suc n) Awaits, attempt_started st)"
proof -
  have "ensureDb_calls n (attempt_started st) = (replicate n Awaits, attempt_started st)"
    using assms by (intro ensureDb_calls_pending) (simp_all add: attempt_started_def)
  with ensureDb_call_idle [OF assms] show ?thesis by simp
qed

text \<open>
  Claim C8. Take a configured process that is not connected and holds no promise. The first
  caller of \<open>ensureDb\<close> starts the one connection attempt, and however many callers arrive
  while it is pending, each of them awaits the same promise and none starts another
  attempt: \<open>mongoose.connect\<close> has been called once more than before, with both timeouts
  set to 3000 ms. If the attempt fails with \<open>e\<close>, every awaiting caller receives \<open>e\<close> as an
  error, the promise is cleared, and the next caller starts a new attempt that later
  callers share again. If it succeeds, every awaiting caller receives \<open>true\<close>, and from then
  on no caller starts an attempt, whatever \<open>readyState\<close> the driver reports. A request that
  runs alone gets from \<open>await ensureDb()\<close> exactly what the attempt settles with. The
  waiting time itself is bounded by the driver, which is given the two timeouts.
\<close>

theorem ensureDb_connects_once:
  assumes "\<not> uri_missing (MONGO_URI st)" and "readyState st \<noteq> 1"
    and "connectingPromise st = None"
  shows "ensureDb_calls (Suc n) st = (replicate (Suc n) Awaits, attempt_started st) \<and>
         connect_calls (attempt_started st) = connect_calls st @ [connect_opts] \<and>
         serverSelectionTimeoutMS connect_opts = 3000 \<and> connectTimeoutMS connect_opts = 3000 \<and>
         settled_result (Some e) = Inl e \<and>
         connectingPromise (connect_settles (Some e) (attempt_started st)) = None \<and>
         connect_calls (connect_settles (Some e) (attempt_started st)) =
           connect_calls st @ [connect_opts] \<and>
         ensureDb_calls (Suc m) (connect_settles (Some e) (attempt_started st)) =
           (replicate (Suc m) Awaits,
            attempt_started (connect_settles (Some e) (attempt_started st))) \<and>
         settled_result None = Inr True \<and>
         ensureDb_calls m ((connect_settles None (attempt_started st))\<lparr>readyState := k\<rparr>) =
           (replicate m (Returns True),
            (connect_settles None (attempt_started st))\<lparr>readyState := k\<rparr>) \<and>
         ensureDb svc st =
           (settled_result (connect svc), connect_settles (connect svc) (attempt_started st))"
proof -
  let ?failed = "connect_settles (Some e) (attempt_started st)"
  let ?up = "(connect_settles None (attempt_started st))\<lparr>readyState := k\<rparr>"
  have first: "ensureDb_calls (Suc n) st = (replicate (Suc n) Awaits, attempt_started st)"
    by (rule ensureDb_calls_idle [OF assms])
  have log: "connect_calls (attempt_started st) = connect_calls st @ [connect_opts]"
    by (simp add: attempt_started_def)
  have opts: "serverSelectionTimeoutMS connect_opts = 3000" "connectTimeoutMS connect_opts = 3000"
    by (simp_all add: connect_opts_def)
  have err: "settled_result (Some e) = Inl e" and ok: "settled_result None = Inr True"
    by (simp_all add: settled_result_def)
  have cleared: "connectingPromise ?failed = None"
    and log': "connect_calls ?failed = connect_calls st @ [connect_opts]"
    by (simp_all add: connect_settles_def attempt_started_def)
  have retry: "ensureDb_calls (Suc m) ?failed = (replicate (Suc m) Awaits, attempt_started ?failed)"
    using assms(1) by (intro ensureDb_calls_idle) (simp_all add: connect_settles_def attempt_started_def)
  have once: "ensureDb_calls m ?up = (replicate m (Returns True), ?up)"
    using assms(1) by (intro ensureDb_calls_fulfilled) (simp_all add: connect_settles_def attempt_started_def)
  have alone: "ensureDb svc st =
      (settled_result (connect svc), connect_settles (connect svc) (attempt_started st))"
    by (simp add: ensureDb_def ensureDb_call_idle [OF assms])
  from first log opts err cleared log' retry ok once alone show ?thesis by simp
qed

theorem ensureDb_connects_once_witness:
  "\<not> uri_missing (MONGO_URI fresh) \<and> readyState fresh \<noteq> 1 \<and> connectingPromise fresh = None \<and>
   ensureDb_calls (Suc 2) fresh = (replicate (Suc 2) Awaits, connecting) \<and>
   connect_calls connecting = [connect_opts] \<and>
   connectingPromise (connect_settles (Some (Error ''no server'')) connecting) = None \<and>
   connect_calls (snd (ensureDb_calls (Suc 1) (connect_settles (Some (Error ''no server'')) connecting)))
     = [connect_opts, connect_opts] \<and>
   ensureDb_calls 1 ((connect_settles None connecting)\<lparr>readyState := 0\<rparr>) =
     (replicate 1 (Returns True), (connect_settles None connecting)\<lparr>readyState := 0\<rparr>) \<and>
   ensureDb connect_fails fresh =
     (Inl (Error ''no server''), connect_settles (Some (Error ''no server'')) connecting)"
proof -
  let ?failed = "connect_settles (Some (Error ''no server'')) connecting"
  have h: "\<not> uri_missing (MONGO_URI fresh)" "readyState fresh \<noteq> 1" "connectingPromise fresh = None"
    by (simp_all add: fresh_def uri_missing_def)
  have c: "attempt_started fresh = connecting"
    by (simp add: attempt_started_def connecting_def fresh_def)
  have f: "connect connect_fails = Some (Error ''no server'')"
    by (simp add: connect_fails_def ok_service_def)
  have l: "connect_calls connecting = [connect_opts]"
    by (simp add: connecting_def)
  have l2: "connect_calls (attempt_started ?failed) = [connect_opts, connect_opts]"
    by (simp add: attempt_started_def connect_settles_def connecting_def)
  note inst = ensureDb_connects_once [OF h, where n = 2 and e = "Error ''no server''"
      and m = 1 and k = 0 and svc = connect_fails, unfolded c f]
  from inst have first: "ensureDb_calls (Suc 2) fresh = (replicate (Suc 2) Awaits, connecting)"
    by (elim conjE)
  from inst have cleared: "connectingPromise ?failed = None"
    by (elim conjE)
  from inst have retry: "ensureDb_calls (Suc 1) ?failed =
      (replicate (Suc 1) Awaits, attempt_started ?failed)"
    by (elim conjE)
  from inst have once: "ensureDb_calls 1 ((connect_settles None connecting)\<lparr>readyState := 0\<rparr>) =
      (replicate 1 (Returns True), (connect_settles None connecting)\<lparr>readyState := 0\<rparr>)"
    by (elim conjE)
  from inst have alone: "ensureDb connect_fails fresh =
      (settled_result (Some (Error ''no server'')), ?failed)"
    by (elim conjE)
  have again: "connect_calls (snd (ensureDb_calls (Suc 1) ?failed)) = [connect_opts, connect_opts]"
    by (simp only: retry snd_conv l2)
  have alone': "ensureDb connect_fails fresh = (Inl (Error ''no server''), ?failed)"
    by (simp only: alone settled_result_def option.case)
  from h first l cleared again once alone' show ?thesis by (intro conjI)
qed

end
